theory Spec2Isabelle
  imports Complex_Main "HOL-Library.AList" "HOL-Library.Char_ord" "HOL-Library.List_Lexorder"
begin

section \<open>Python values shared by both components\<close>

text \<open>
  Exceptions of the Python run time are values: a function that can raise returns
  \<open>py_error + 'a\<close>, with \<open>Inl\<close> for the exception.
\<close>

datatype py_error = ValueError | IndexError | AssertionError | KeyError | RuntimeError

text \<open>
  Subscripting a Python list, \<open>xs[i]\<close>: the indices \<open>0 .. len(xs) - 1\<close> read from
  the front, the indices \<open>-len(xs) .. -1\<close> read from the back, and every other index
  raises IndexError.
\<close>

definition py_index :: "'a list \<Rightarrow> int \<Rightarrow> py_error + 'a" where
  "py_index xs i =
     (if 0 \<le> i \<and> i < int (length xs) then Inr (xs ! nat i)
      else if i < 0 \<and> - int (length xs) \<le> i then Inr (xs ! nat (int (length xs) + i))
      else Inl IndexError)"

text \<open>
  Strings are byte strings (ASCII). \<open>str.split(sep)\<close> with a one-character separator
  never returns an empty list: the empty string splits into one empty field.
\<close>

fun split_on :: "char \<Rightarrow> string \<Rightarrow> string list" where
  "split_on sep [] = [[]]"
| "split_on sep (c # cs) =
     (if c = sep then [] # split_on sep cs
      else (case split_on sep cs of
              [] \<Rightarrow> [[c]]
            | w # ws \<Rightarrow> (c # w) # ws))"

text \<open>The ASCII characters \<open>str.isspace\<close> accepts: 9 to 13, 28 to 31 and the blank.\<close>

definition is_space :: "char \<Rightarrow> bool" where
  "is_space c = (let n = (of_char c :: nat) in (9 \<le> n \<and> n \<le> 13) \<or> (28 \<le> n \<and> n \<le> 32))"

definition strip :: "string \<Rightarrow> string" where
  "strip s = rev (dropWhile is_space (rev (dropWhile is_space s)))"

definition is_digit :: "char \<Rightarrow> bool" where
  "is_digit c = (let n = (of_char c :: nat) in 48 \<le> n \<and> n \<le> 57)"

definition digit_val :: "char \<Rightarrow> nat" where
  "digit_val c = of_char c - 48"

text \<open>
  The digits of an \<open>int(...)\<close> literal after its first digit: a single underscore may
  stand between two digits, nowhere else.
\<close>

fun parse_digits :: "nat \<Rightarrow> string \<Rightarrow> nat option" where
  "parse_digits acc [] = Some acc"
| "parse_digits acc [c] = (if is_digit c then Some (10 * acc + digit_val c) else None)"
| "parse_digits acc (c # d # ds) =
     (if c = CHR ''_'' then
        (if is_digit d then parse_digits (10 * acc + digit_val d) ds else None)
      else if is_digit c then parse_digits (10 * acc + digit_val c) (d # ds)
      else None)"

definition parse_nat :: "string \<Rightarrow> nat option" where
  "parse_nat s =
     (case s of
        [] \<Rightarrow> None
      | c # cs \<Rightarrow> if is_digit c then parse_digits (digit_val c) cs else None)"

text \<open>
  \<open>int(s)\<close> in base 10. The conversion skips the white space of C around the literal,
  which is 9 to 13 and the blank only: the separators 28 to 31, which \<open>str.strip\<close>
  removes, make \<open>int\<close> raise. One sign is allowed, and anything that is not a digit
  string raises ValueError. The interpreter's configurable limit on the number of digits
  is not modelled.
\<close>

definition is_int_space :: "char \<Rightarrow> bool" where
  "is_int_space c = (let n = (of_char c :: nat) in (9 \<le> n \<and> n \<le> 13) \<or> n = 32)"

definition int_strip :: "string \<Rightarrow> string" where
  "int_strip s = rev (dropWhile is_int_space (rev (dropWhile is_int_space s)))"

definition py_int :: "string \<Rightarrow> py_error + int" where
  "py_int s =
     (case int_strip s of
        [] \<Rightarrow> Inl ValueError
      | c # cs \<Rightarrow>
          if c = CHR ''-'' then
            (case parse_nat cs of None \<Rightarrow> Inl ValueError | Some n \<Rightarrow> Inr (- int n))
          else if c = CHR ''+'' then
            (case parse_nat cs of None \<Rightarrow> Inl ValueError | Some n \<Rightarrow> Inr (int n))
          else
            (case parse_nat (c # cs) of None \<Rightarrow> Inl ValueError | Some n \<Rightarrow> Inr (int n)))"

text \<open>\<open>str(n)\<close> of an integer: its decimal digits, with a minus sign when negative.\<close>

definition digit_char :: "nat \<Rightarrow> char" where
  "digit_char d = ''0123456789'' ! d"

function str_nat :: "nat \<Rightarrow> string" where
  "str_nat n = (if n < 10 then [digit_char n] else str_nat (n div 10) @ [digit_char (n mod 10)])"
  by pat_completeness auto
termination
  by (relation "measure id") auto

declare str_nat.simps [simp del]

definition str_int :: "int \<Rightarrow> string" where
  "str_int i = (if i < 0 then CHR ''-'' # str_nat (nat (- i)) else str_nat (nat i))"

section \<open>The corpus index: \<open>s3prl/corpus/voxceleb1sid.py\<close>\<close>

subsection \<open>\<open>_get_standard_usage\<close> and \<open>code2split\<close>\<close>

definition code2split :: "int \<Rightarrow> py_error + string" where
  "code2split code = (let splits = [''train'', ''valid'', ''test''] in py_index splits (code - 1))"

text \<open>
  The dictionary comprehension over the manifest's lines. A Python \<open>dict\<close> keeps the
  position of a key's first insertion and the value of its last one, which is what
  \<open>AList.update\<close> does. Unpacking \<open>split, uid\<close> needs exactly two fields.
\<close>

fun standard_usage_dict ::
  "string list list \<Rightarrow> (string \<times> string) list \<Rightarrow> py_error + (string \<times> string) list" where
  "standard_usage_dict [] d = Inr d"
| "standard_usage_dict (fields # rest) d =
     (case fields of
        [split, uid] \<Rightarrow>
          (case py_int split of
             Inl e \<Rightarrow> Inl e
           | Inr code \<Rightarrow>
               (case code2split code of
                  Inl e \<Rightarrow> Inl e
                | Inr s \<Rightarrow> standard_usage_dict rest (AList.update uid s d)))
      | _ \<Rightarrow> Inl ValueError)"

text \<open>
  \<open>_get_standard_usage\<close>, from the lines of the split file on (the download that puts
  the file in the cache is outside the model).
\<close>

definition get_standard_usage :: "string list \<Rightarrow> py_error + (string \<times> string) list" where
  "get_standard_usage lines =
     standard_usage_dict (map (\<lambda>line. split_on CHR '' '' (strip line)) lines) []"

subsection \<open>\<open>_build_label\<close>\<close>

definition build_label :: "string \<Rightarrow> py_error + string" where
  "build_label uid =
     (case split_on CHR ''/'' uid of
        [] \<Rightarrow> Inl IndexError
      | id_string # _ \<Rightarrow>
          (case py_int (drop 2 id_string) of
             Inl e \<Rightarrow> Inl e
           | Inr n \<Rightarrow> Inr (''speaker_'' @ str_int (n - 10001))))"

subsection \<open>\<open>_find_wavs_with_uids\<close>\<close>

text \<open>
  The file system is a parameter: \<open>glob uid\<close> is the list
  \<open>dataset_root.glob(f"*/wav/{uid}")\<close> returns. The assertion is a branch of the
  model. The parallel map returns its results in the order of its inputs and re-raises
  a worker's exception, so it is a map that stops at the first failure.
\<close>

definition find_wav_with_uid :: "(string \<Rightarrow> 'p list) \<Rightarrow> string \<Rightarrow> py_error + (string \<times> 'p)" where
  "find_wav_with_uid glob uid =
     (let found_wavs = glob uid
      in if length found_wavs = 1 then Inr (uid, found_wavs ! 0) else Inl AssertionError)"

fun map_raise :: "('a \<Rightarrow> py_error + 'b) \<Rightarrow> 'a list \<Rightarrow> py_error + 'b list" where
  "map_raise f [] = Inr []"
| "map_raise f (x # xs) =
     (case f x of
        Inl e \<Rightarrow> Inl e
      | Inr y \<Rightarrow> (case map_raise f xs of Inl e \<Rightarrow> Inl e | Inr ys \<Rightarrow> Inr (y # ys)))"

definition dict_of :: "('k \<times> 'v) list \<Rightarrow> ('k \<times> 'v) list" where
  "dict_of kvs = foldl (\<lambda>d (k, v). AList.update k v d) [] kvs"

definition find_wavs_with_uids ::
  "(string \<Rightarrow> 'p list) \<Rightarrow> string list \<Rightarrow> py_error + (string \<times> 'p) list" where
  "find_wavs_with_uids glob uids =
     (case map_raise (find_wav_with_uid glob) uids of
        Inl e \<Rightarrow> Inl e
      | Inr uids_with_wavs \<Rightarrow> Inr (dict_of uids_with_wavs))"

subsection \<open>\<open>__init__\<close>\<close>

text \<open>
  \<open>Path(s).stem\<close> for a string without a slash (POSIX paths): the name is the string
  itself, except that the empty string and a lone dot give the empty name; the stem
  drops the last suffix when the last dot is neither the first nor the last character.
\<close>

definition rfind :: "char \<Rightarrow> string \<Rightarrow> int" where
  "rfind c s =
     (case filter (\<lambda>i. s ! i = c) (rev [0..<length s]) of
        [] \<Rightarrow> - 1
      | i # _ \<Rightarrow> int i)"

definition path_stem :: "string \<Rightarrow> string" where
  "path_stem s =
     (let name = (if s = [] \<or> s = ''.'' then [] else s);
          i = rfind CHR ''.'' name
      in if 0 < i \<and> i < int (length name) - 1 then take (nat i) name else name)"

definition replace_char :: "char \<Rightarrow> char \<Rightarrow> string \<Rightarrow> string" where
  "replace_char old new s = map (\<lambda>c. if c = old then new else c) s"

text \<open>The key under which an utterance is stored: \<open>Path(uid.replace("/", "-")).stem\<close>.\<close>

definition uid_key :: "string \<Rightarrow> string" where
  "uid_key uid = path_stem (replace_char CHR ''/'' CHR ''-'' uid)"

text \<open>
  \<open>_split2uids\<close> is a \<open>defaultdict(list)\<close>: a function from the split's name to a
  list, empty where nothing was appended.
\<close>

fun split2uids_loop ::
  "(string \<times> string) list \<Rightarrow> (string \<Rightarrow> string list) \<Rightarrow> (string \<Rightarrow> string list)" where
  "split2uids_loop [] d = d"
| "split2uids_loop ((uid, split) # items) d =
     split2uids_loop items (d(split := d split @ [uid_key uid]))"

text \<open>
  The comprehension that builds \<open>_data\<close>: \<open>uid2wavpath[uid]\<close> raises KeyError on a
  missing key and \<open>_build_label\<close> can raise.
\<close>

definition data_entry ::
  "(string \<times> 'p) list \<Rightarrow> string \<Rightarrow> py_error + (string \<times> 'p \<times> string)" where
  "data_entry uid2wavpath uid =
     (case map_of uid2wavpath uid of
        None \<Rightarrow> Inl KeyError
      | Some wav_path \<Rightarrow>
          (case build_label uid of
             Inl e \<Rightarrow> Inl e
           | Inr label \<Rightarrow> Inr (uid_key uid, wav_path, label)))"

record 'p corpus =
  split2uids :: "string \<Rightarrow> string list"
  all_data :: "(string \<times> 'p \<times> string) list"

definition VoxCeleb1SID_init :: "(string \<Rightarrow> 'p list) \<Rightarrow> string list \<Rightarrow> py_error + 'p corpus" where
  "VoxCeleb1SID_init glob lines =
     (case get_standard_usage lines of
        Inl e \<Rightarrow> Inl e
      | Inr uid2split \<Rightarrow>
          (let s2u = split2uids_loop uid2split (\<lambda>_. [])
           in case find_wavs_with_uids glob (sort (map fst uid2split)) of
                Inl e \<Rightarrow> Inl e
              | Inr uid2wavpath \<Rightarrow>
                  (case map_raise (data_entry uid2wavpath) (map fst uid2split) of
                     Inl e \<Rightarrow> Inl e
                   | Inr entries \<Rightarrow> Inr \<lparr>split2uids = s2u, all_data = dict_of entries\<rparr>)))"

definition data_split_ids :: "'p corpus \<Rightarrow> string list \<times> string list \<times> string list" where
  "data_split_ids c = (split2uids c ''train'', split2uids c ''valid'', split2uids c ''test'')"

section \<open>The scoring head: \<open>downstream/vcc2018_linear_segment/model.py\<close>\<close>

subsection \<open>Tensors\<close>

text \<open>
  A tensor is its shape and its elements in row-major order, as the tensor library stores
  a contiguous tensor; a tensor of shape \<open>[]\<close> is a scalar with one element. The elements
  are real numbers: arithmetic is exact, and rounding, overflow and the infinities of
  floating point are outside the model. The one value that is not a number and that the
  code itself can produce from numbers, the mean of no elements, is the element \<open>NaN\<close> of
  the type of scores.
\<close>

record 'a tensor =
  shape :: "nat list"
  elems :: "'a list"

datatype score = Score real | NaN

definition numel :: "nat list \<Rightarrow> nat" where
  "numel s = prod_list s"

definition wf_tensor :: "'a tensor \<Rightarrow> bool" where
  "wf_tensor x = (length (elems x) = numel (shape x))"

definition map_tensor :: "('a \<Rightarrow> 'b) \<Rightarrow> 'a tensor \<Rightarrow> 'b tensor" where
  "map_tensor f x = \<lparr>shape = shape x, elems = map f (elems x)\<rparr>"

text \<open>The \<open>i\<close>-th block of \<open>h\<close> consecutive elements: a vector along the last dimension.\<close>

definition row :: "nat \<Rightarrow> 'a list \<Rightarrow> nat \<Rightarrow> 'a list" where
  "row h xs i = take h (drop (i * h) xs)"

definition dot :: "real list \<Rightarrow> real list \<Rightarrow> real" where
  "dot w v = sum_list (map2 (*) w v)"

text \<open>
  \<open>nn.Linear(input_dim, 1)\<close>: a weight vector of length \<open>input_dim\<close> and a bias. It
  acts on the last dimension, which must be \<open>input_dim\<close>; a mismatch, and an input without
  dimensions, raise RuntimeError.
\<close>

record linear_layer =
  weight :: "real list"
  bias :: real

definition Linear_forward :: "linear_layer \<Rightarrow> real tensor \<Rightarrow> py_error + real tensor" where
  "Linear_forward l x =
     (if shape x = [] \<or> last (shape x) \<noteq> length (weight l) then Inl RuntimeError
      else
        (let lead = butlast (shape x); h = last (shape x)
         in Inr \<lparr>shape = lead @ [1],
                 elems = map (\<lambda>i. dot (weight l) (row h (elems x) i) + bias l) [0..<numel lead]\<rparr>))"

text \<open>\<open>x.squeeze(-1)\<close> drops the last dimension when it is 1, and \<open>x.unsqueeze(-1)\<close> adds one.\<close>

definition squeeze_last :: "'a tensor \<Rightarrow> 'a tensor" where
  "squeeze_last x =
     (if shape x \<noteq> [] \<and> last (shape x) = 1 then x\<lparr>shape := butlast (shape x)\<rparr> else x)"

definition unsqueeze_last :: "'a tensor \<Rightarrow> 'a tensor" where
  "unsqueeze_last x = x\<lparr>shape := shape x @ [1]\<rparr>"

text \<open>
  \<open>x.mean(dim=-1)\<close>: the mean of each vector along the last dimension. A scalar is its own
  mean, and the mean of a vector of length 0 is NaN.
\<close>

definition mean_last :: "real tensor \<Rightarrow> score tensor" where
  "mean_last x =
     (if shape x = [] then map_tensor Score x
      else
        (let lead = butlast (shape x); t = last (shape x)
         in \<lparr>shape = lead,
             elems = map (\<lambda>i. if t = 0 then NaN
                               else Score (sum_list (row t (elems x) i) / real t))
                         [0..<numel lead]\<rparr>))"

text \<open>
  \<open>softmax\<close> along dimension \<open>d\<close>. With \<open>n\<close> the size of that dimension and \<open>inner\<close>
  the number of elements of one index of it, the element at position \<open>k\<close> is divided by
  the sum over the \<open>n\<close> positions that differ from \<open>k\<close> in dimension \<open>d\<close> only.
  Subtracting the maximum first, as the library does, does not change the quotient.
\<close>

definition along :: "nat \<Rightarrow> nat \<Rightarrow> nat \<Rightarrow> nat \<Rightarrow> nat" where
  "along n inner k j = ((k div (n * inner)) * n + j) * inner + k mod inner"

definition softmax_dim :: "nat \<Rightarrow> real tensor \<Rightarrow> real tensor" where
  "softmax_dim d x =
     (let s = shape x;
          n = (if s = [] then 1 else s ! d);
          inner = numel (drop (Suc d) s)
      in x\<lparr>elems :=
             map (\<lambda>k. exp (elems x ! k)
                        / sum_list (map (\<lambda>j. exp (elems x ! along n inner k j)) [0..<n]))
                 [0..<numel s]\<rparr>)"

text \<open>
  \<open>nn.functional.softmax\<close> called without \<open>dim\<close>, as the source calls it: the library
  takes dimension 0 for a tensor of 0, 1 or 3 dimensions and dimension 1 otherwise.
\<close>

definition get_softmax_dim :: "nat \<Rightarrow> nat" where
  "get_softmax_dim ndim = (if ndim = 0 \<or> ndim = 1 \<or> ndim = 3 then 0 else 1)"

definition softmax :: "real tensor \<Rightarrow> real tensor" where
  "softmax x = softmax_dim (get_softmax_dim (length (shape x))) x"

text \<open>
  \<open>a * b\<close> with broadcasting: the shapes are aligned at the last dimension, the shorter
  one is filled with 1 in front, and two sizes go together when they are equal or one of
  them is 1; otherwise RuntimeError is raised.
\<close>

fun unravel :: "nat list \<Rightarrow> nat \<Rightarrow> nat list" where
  "unravel [] k = []"
| "unravel (d # ds) k = (k div numel ds) # unravel ds (k mod numel ds)"

fun ravel :: "nat list \<Rightarrow> nat list \<Rightarrow> nat" where
  "ravel (d # ds) (i # is) = i * numel ds + ravel ds is"
| "ravel _ _ = 0"

definition pad_shape :: "nat \<Rightarrow> nat list \<Rightarrow> nat list" where
  "pad_shape r s = replicate (r - length s) 1 @ s"

definition broadcast_index :: "nat list \<Rightarrow> nat list \<Rightarrow> nat" where
  "broadcast_index s idx = ravel s (map2 (\<lambda>d i. if d = 1 then 0 else i) s idx)"

definition broadcast_shapes :: "nat list \<Rightarrow> nat list \<Rightarrow> py_error + nat list" where
  "broadcast_shapes a b =
     (let r = max (length a) (length b); a' = pad_shape r a; b' = pad_shape r b
      in if list_all (\<lambda>(p, q). p = q \<or> p = 1 \<or> q = 1) (zip a' b')
         then Inr (map2 (\<lambda>p q. if p = 1 then q else p) a' b')
         else Inl RuntimeError)"

definition mul :: "real tensor \<Rightarrow> real tensor \<Rightarrow> py_error + real tensor" where
  "mul a b =
     (case broadcast_shapes (shape a) (shape b) of
        Inl e \<Rightarrow> Inl e
      | Inr s \<Rightarrow>
          Inr \<lparr>shape = s,
               elems = map (\<lambda>k. elems a ! broadcast_index (pad_shape (length s) (shape a)) (unravel s k)
                                * elems b ! broadcast_index (pad_shape (length s) (shape b)) (unravel s k))
                           [0..<numel s]\<rparr>)"

text \<open>\<open>torch.sum(x, dim=1)\<close>: a tensor with fewer than two dimensions raises IndexError.\<close>

definition sum_dim1 :: "real tensor \<Rightarrow> py_error + real tensor" where
  "sum_dim1 x =
     (case shape x of
        a # n # rest \<Rightarrow>
          Inr \<lparr>shape = a # rest,
               elems = map (\<lambda>k. sum_list (map (\<lambda>j. elems x ! (((k div numel rest) * n + j) * numel rest
                                                                  + k mod numel rest))
                                                   [0..<n]))
                           [0..<a * numel rest]\<rparr>
      | _ \<Rightarrow> Inl IndexError)"

subsection \<open>\<open>SelfAttentionPooling\<close>\<close>

record self_attention_pooling =
  W :: linear_layer

text \<open>The weights \<open>att_w\<close> of \<open>SelfAttentionPooling.forward\<close>.\<close>

definition attention_weight :: "self_attention_pooling \<Rightarrow> real tensor \<Rightarrow> py_error + real tensor" where
  "attention_weight p batch_rep =
     (case Linear_forward (W p) batch_rep of
        Inl e \<Rightarrow> Inl e
      | Inr logits \<Rightarrow> Inr (unsqueeze_last (softmax (squeeze_last logits))))"

definition SelfAttentionPooling_forward ::
  "self_attention_pooling \<Rightarrow> real tensor \<Rightarrow> py_error + real tensor" where
  "SelfAttentionPooling_forward p batch_rep =
     (case attention_weight p batch_rep of
        Inl e \<Rightarrow> Inl e
      | Inr att_w \<Rightarrow>
          (case mul batch_rep att_w of
             Inl e \<Rightarrow> Inl e
           | Inr weighted \<Rightarrow> sum_dim1 weighted))"

subsection \<open>\<open>Model\<close>\<close>

record model =
  linear :: linear_layer
  clipping :: bool
  pooling :: "self_attention_pooling option"

text \<open>
  \<open>Model.__init__\<close> builds both linear layers with the same \<open>input_dim\<close>; the values of
  the parameters are arbitrary.
\<close>

definition model_of :: "nat \<Rightarrow> model \<Rightarrow> bool" where
  "model_of input_dim m =
     (length (weight (linear m)) = input_dim
      \<and> (case pooling m of None \<Rightarrow> True | Some p \<Rightarrow> length (weight (W p)) = input_dim))"

definition clip :: "score \<Rightarrow> score" where
  "clip s = (case s of Score v \<Rightarrow> Score (tanh v * 2 + 3) | NaN \<Rightarrow> NaN)"

definition segment_score :: "model \<Rightarrow> real tensor \<Rightarrow> py_error + score tensor" where
  "segment_score m features =
     (case pooling m of
        Some p \<Rightarrow>
          (case SelfAttentionPooling_forward p features of
             Inl e \<Rightarrow> Inl e
           | Inr x \<Rightarrow>
               (case Linear_forward (linear m) x of
                  Inl e \<Rightarrow> Inl e
                | Inr s \<Rightarrow> Inr (map_tensor Score s)))
      | None \<Rightarrow>
          (case Linear_forward (linear m) features of
             Inl e \<Rightarrow> Inl e
           | Inr x \<Rightarrow> Inr (mean_last (squeeze_last x))))"

definition Model_forward :: "model \<Rightarrow> real tensor \<Rightarrow> py_error + score tensor" where
  "Model_forward m features =
     (case segment_score m features of
        Inl e \<Rightarrow> Inl e
      | Inr s \<Rightarrow> Inr (squeeze_last (if clipping m then map_tensor clip s else s)))"

text \<open>
  A batch of shape \<open>(N, T, H)\<close>, and the same batch with the frames of every sequence
  reordered: position \<open>t\<close> of the new batch holds frame \<open>\<pi> t\<close> of the old one.
\<close>

definition batch_shape :: "nat \<Rightarrow> nat \<Rightarrow> nat \<Rightarrow> real tensor \<Rightarrow> bool" where
  "batch_shape N T H x = (shape x = [N, T, H] \<and> length (elems x) = N * T * H)"

definition permute_frames :: "(nat \<Rightarrow> nat) \<Rightarrow> real tensor \<Rightarrow> real tensor" where
  "permute_frames \<pi> x =
     (case shape x of
        [N, T, H] \<Rightarrow>
          x\<lparr>elems := map (\<lambda>k. elems x ! (((k div (T * H)) * T + \<pi> ((k div H) mod T)) * H + k mod H))
                          [0..<N * T * H]\<rparr>
      | _ \<Rightarrow> x)"

subsection \<open>Batches read by sequence and frame\<close>

text \<open>
  The mathematical reading of a batch of shape \<open>(N, T, H)\<close>, used to state and prove the
  properties below: frame \<open>t\<close> of sequence \<open>n\<close>, the scalar a linear layer gives it,
  the softmax weight of that frame within its sequence, and the weighted sum of the frames
  of a sequence.
\<close>

definition frame :: "nat \<Rightarrow> nat \<Rightarrow> real tensor \<Rightarrow> nat \<Rightarrow> nat \<Rightarrow> real list" where
  "frame T H x n t = row H (elems x) (n * T + t)"

definition logit :: "linear_layer \<Rightarrow> nat \<Rightarrow> nat \<Rightarrow> real tensor \<Rightarrow> nat \<Rightarrow> nat \<Rightarrow> real" where
  "logit l T H x n t = dot (weight l) (frame T H x n t) + bias l"

definition att_w :: "linear_layer \<Rightarrow> nat \<Rightarrow> nat \<Rightarrow> real tensor \<Rightarrow> nat \<Rightarrow> nat \<Rightarrow> real" where
  "att_w l T H x n t = exp (logit l T H x n t) / (\<Sum>j<T. exp (logit l T H x n j))"

definition pooled_frame :: "linear_layer \<Rightarrow> nat \<Rightarrow> nat \<Rightarrow> real tensor \<Rightarrow> nat \<Rightarrow> real list" where
  "pooled_frame l T H x n = map (\<lambda>h. \<Sum>j<T. frame T H x n j ! h * att_w l T H x n j) [0..<H]"

text \<open>The shapes on which \<open>Model.forward\<close> raises, for a model built with \<open>input_dim = H\<close>.\<close>

definition forward_raises :: "nat \<Rightarrow> model \<Rightarrow> nat list \<Rightarrow> bool" where
  "forward_raises H m s =
     (s = [] \<or> last s \<noteq> H
      \<or> (pooling m \<noteq> None \<and> (length s = 1 \<or> (length s = 2 \<and> hd s \<noteq> H))))"

section \<open>Properties of the corpus index\<close>

subsection \<open>Decimal printing and parsing\<close>

lemma str_nat_small: "n < 10 \<Longrightarrow> str_nat n = [digit_char n]"
  by (subst str_nat.simps) simp

lemma str_nat_big: "10 \<le> n \<Longrightarrow> str_nat n = str_nat (n div 10) @ [digit_char (n mod 10)]"
  by (subst str_nat.simps) simp

lemma digit_char_props:
  "d < 10 \<Longrightarrow> is_digit (digit_char d) \<and> digit_val (digit_char d) = d"
proof -
  assume "d < 10"
  then have "d \<in> {0,1,2,3,4,5,6,7,8,9}" by auto
  then show ?thesis
    by (auto simp: digit_char_def is_digit_def digit_val_def)
qed

lemma is_digit_not_underscore: "is_digit c \<Longrightarrow> c \<noteq> CHR ''_''"
  by (auto simp: is_digit_def Let_def)

lemma parse_digits_all_digits:
  "\<forall>c \<in> set ds. is_digit c \<Longrightarrow>
   parse_digits acc ds = Some (foldl (\<lambda>a c. 10 * a + digit_val c) acc ds)"
  by (induction acc ds rule: parse_digits.induct) (auto simp: is_digit_not_underscore)

lemma str_nat_digits: "\<forall>c \<in> set (str_nat n). is_digit c"
proof (induction n rule: str_nat.induct)
  case (1 n)
  show ?case
  proof (cases "n < 10")
    case True
    then show ?thesis by (simp add: str_nat_small digit_char_props)
  next
    case False
    then have "\<forall>c \<in> set (str_nat (n div 10)). is_digit c" using 1 by simp
    moreover have "is_digit (digit_char (n mod 10))" by (simp add: digit_char_props)
    ultimately show ?thesis using False by (simp add: str_nat_big)
  qed
qed

lemma str_nat_nonempty: "str_nat n \<noteq> []"
  by (subst str_nat.simps) simp

lemma str_nat_value: "foldl (\<lambda>a c. 10 * a + digit_val c) 0 (str_nat n) = n"
proof (induction n rule: str_nat.induct)
  case (1 n)
  show ?case
  proof (cases "n < 10")
    case True
    then show ?thesis by (simp add: str_nat_small digit_char_props)
  next
    case False
    then have "foldl (\<lambda>a c. 10 * a + digit_val c) 0 (str_nat (n div 10)) = n div 10"
      using 1 by simp
    then show ?thesis using False by (simp add: str_nat_big digit_char_props)
  qed
qed

lemma foldl_zeros:
  "foldl (\<lambda>a c. 10 * a + digit_val c) 0 (replicate k CHR ''0'') = 0"
  by (induction k) (auto simp: digit_val_def)

lemma parse_nat_digits:
  assumes "ds \<noteq> []" "\<forall>c \<in> set ds. is_digit c"
  shows "parse_nat ds = Some (foldl (\<lambda>a c. 10 * a + digit_val c) 0 ds)"
proof -
  obtain c cs where ds: "ds = c # cs" using assms(1) by (cases ds) auto
  then show ?thesis using assms(2) by (simp add: parse_nat_def parse_digits_all_digits)
qed

lemma dropWhile_head: "xs \<noteq> [] \<Longrightarrow> \<not> P (hd xs) \<Longrightarrow> dropWhile P xs = xs"
  by (cases xs) auto

lemma int_strip_digits:
  assumes "ds \<noteq> []" "\<forall>c \<in> set ds. is_digit c"
  shows "int_strip ds = ds"
proof -
  have ns: "\<And>c. is_digit c \<Longrightarrow> \<not> is_int_space c"
    by (auto simp: is_digit_def is_int_space_def Let_def)
  have "hd ds \<in> set ds" using assms(1) by simp
  then have 1: "dropWhile is_int_space ds = ds" using assms ns dropWhile_head by metis
  have "rev ds \<noteq> []" using assms(1) by simp
  moreover have "hd (rev ds) \<in> set ds" using assms(1) by (simp add: hd_rev)
  ultimately have 2: "dropWhile is_int_space (rev ds) = rev ds" using assms ns dropWhile_head by metis
  show ?thesis by (simp add: int_strip_def 1 2)
qed

lemma py_int_digits:
  assumes "ds \<noteq> []" "\<forall>c \<in> set ds. is_digit c"
  shows "py_int ds = Inr (int (foldl (\<lambda>a c. 10 * a + digit_val c) 0 ds))"
proof -
  obtain c cs where ds: "ds = c # cs" using assms(1) by (cases ds) auto
  have "is_digit c" using assms(2) ds by simp
  then have "c \<noteq> CHR ''-''" "c \<noteq> CHR ''+''" by (auto simp: is_digit_def Let_def)
  then show ?thesis
    using parse_nat_digits[OF assms] int_strip_digits[OF assms] ds by (simp add: py_int_def)
qed

lemma split_on_no_sep: "sep \<notin> set w \<Longrightarrow> split_on sep w = [w]"
  by (induction w) auto

lemma split_on_first: "sep \<notin> set w \<Longrightarrow> split_on sep (w @ sep # rest) = w # split_on sep rest"
  by (induction w) auto

lemma digits_no_slash: "is_digit c \<Longrightarrow> c \<noteq> CHR ''/''"
  by (auto simp: is_digit_def Let_def)

text \<open>
  C3. An identifier whose first path component is \<open>id\<close> followed by the decimal digits of
  \<open>n\<close> (written with any number of leading zeros, and followed by the rest of the path or
  by nothing) gets the label \<open>speaker_\<close> followed by \<open>n - 10001\<close> as Python prints
  it. In particular \<open>id10001\<close> gives \<open>speaker_0\<close> and \<open>id10050\<close> gives
  \<open>speaker_49\<close>.
\<close>

theorem build_label_renumbers:
  "build_label (''id'' @ replicate k CHR ''0'' @ str_nat n @ CHR ''/'' # rest)
     = Inr (''speaker_'' @ str_int (int n - 10001))
   \<and> build_label (''id'' @ replicate k CHR ''0'' @ str_nat n)
     = Inr (''speaker_'' @ str_int (int n - 10001))
   \<and> build_label ''id10001/1zcIwhmdeo4/00001.wav'' = Inr ''speaker_0''
   \<and> build_label ''id10050/x/00001.wav'' = Inr ''speaker_49''"
proof -
  let ?ds = "replicate k CHR ''0'' @ str_nat n"
  have z: "is_digit CHR ''0''" by (simp add: is_digit_def)
  have dig: "\<forall>c \<in> set ?ds. is_digit c" using str_nat_digits z by auto
  have ne: "?ds \<noteq> []" using str_nat_nonempty by simp
  have val: "foldl (\<lambda>a c. 10 * a + digit_val c) 0 ?ds = n"
    by (simp add: foldl_zeros str_nat_value)
  have int: "py_int ?ds = Inr (int n)" using py_int_digits[OF ne dig] val by simp
  have nosl: "CHR ''/'' \<notin> set (''id'' @ ?ds)" using dig digits_no_slash by auto
  have a: "split_on CHR ''/'' ((''id'' @ ?ds) @ CHR ''/'' # rest) = (''id'' @ ?ds) # split_on CHR ''/'' rest"
    using split_on_first[OF nosl] by blast
  have b: "split_on CHR ''/'' (''id'' @ ?ds) = [''id'' @ ?ds]"
    using split_on_no_sep[OF nosl] by blast
  have d: "drop 2 (''id'' @ ?ds) = ?ds" by simp
  have 1: "build_label ((''id'' @ ?ds) @ CHR ''/'' # rest) = Inr (''speaker_'' @ str_int (int n - 10001))"
    unfolding build_label_def a using int d by simp
  have 2: "build_label (''id'' @ ?ds) = Inr (''speaker_'' @ str_int (int n - 10001))"
    unfolding build_label_def b using int d by simp
  have 3: "build_label ''id10001/1zcIwhmdeo4/00001.wav'' = Inr ''speaker_0''"
    by (simp add: build_label_def py_int_def int_strip_def is_int_space_def parse_nat_def
        is_digit_def digit_val_def str_int_def digit_char_def str_nat_small str_nat_big)
  have 4: "build_label ''id10050/x/00001.wav'' = Inr ''speaker_49''"
    by (simp add: build_label_def py_int_def int_strip_def is_int_space_def parse_nat_def
        is_digit_def digit_val_def str_int_def digit_char_def str_nat_small str_nat_big)
  show ?thesis using 1 2 3 4 by simp
qed

subsection \<open>The split codes and the file search\<close>

lemma code2split_cases:
  "code2split c =
     (if c = 1 \<or> c = -2 then Inr ''train''
      else if c = 2 \<or> c = -1 then Inr ''valid''
      else if c = 3 \<or> c = 0 then Inr ''test''
      else Inl IndexError)"
proof -
  consider "c \<le> -3" | "c = -2" | "c = -1" | "c = 0" | "c = 1" | "c = 2" | "c = 3" | "4 \<le> c"
    by linarith
  then show ?thesis
    by cases (auto simp: code2split_def py_index_def)
qed

lemmas manifest_eval =
  get_standard_usage_def strip_def is_space_def py_int_def int_strip_def is_int_space_def
  parse_nat_def is_digit_def
  digit_val_def code2split_cases

text \<open>
  C10 (as amended). \<open>code2split\<close> has no guard: code 0 gives \<open>test\<close>, code -1 gives
  \<open>valid\<close> and code -2 gives \<open>train\<close> through negative indexing, and no error is raised.
  IndexError is raised exactly for the codes 4 and above and for the codes -3 and below. A
  manifest line with code 0 is therefore put into the test split.
\<close>

theorem code2split_unguarded:
  "code2split 0 = Inr ''test'' \<and> code2split (- 1) = Inr ''valid''
   \<and> code2split (- 2) = Inr ''train''
   \<and> (code2split c = Inl IndexError \<longleftrightarrow> 4 \<le> c \<or> c \<le> - 3)
   \<and> get_standard_usage [''0 id10001/a/00001.wav''] = Inr [(''id10001/a/00001.wav'', ''test'')]"
proof -
  have 1: "code2split c = Inl IndexError \<longleftrightarrow> 4 \<le> c \<or> c \<le> - 3"
    by (auto simp: code2split_cases)
  have 2: "get_standard_usage [''0 id10001/a/00001.wav''] = Inr [(''id10001/a/00001.wav'', ''test'')]"
    by (simp add: manifest_eval)
  show ?thesis using 1 2 by (simp add: code2split_cases)
qed

text \<open>
  C10 as stated says that only the codes 4 and above raise IndexError. Code -3 raises it
  too, since \<open>splits[-4]\<close> is outside a list of three.
\<close>

theorem code2split_minus_three_raises:
  "code2split (- 3) = Inl IndexError \<and> \<not> (4::int) \<le> - 3"
  by (simp add: code2split_cases)

lemma find_wavs_char:
  "find_wavs_with_uids glob uids =
     (if \<forall>uid \<in> set uids. length (glob uid) = 1
      then Inr (dict_of (map (\<lambda>uid. (uid, glob uid ! 0)) uids))
      else Inl AssertionError)"
proof (cases "\<forall>uid \<in> set uids. length (glob uid) = 1")
  case True
  then have "map_raise (find_wav_with_uid glob) uids = Inr (map (\<lambda>uid. (uid, glob uid ! 0)) uids)"
    by (induction uids) (auto simp: find_wav_with_uid_def)
  then show ?thesis using True by (simp add: find_wavs_with_uids_def)
next
  case False
  then have "map_raise (find_wav_with_uid glob) uids = Inl AssertionError"
    by (induction uids) (auto simp: find_wav_with_uid_def Let_def split: sum.splits)
  then show ?thesis using False by (simp add: find_wavs_with_uids_def)
qed

text \<open>
  C8. The file search succeeds exactly when every identifier has exactly one matching file,
  and then it maps each identifier to that file; otherwise it fails with AssertionError.
  When the manifest was read and some identifier of it has no match or several, the
  constructor fails with AssertionError, so it returns no corpus at all.
\<close>

theorem find_wavs_needs_exactly_one:
  "find_wavs_with_uids glob uids =
     (if \<forall>uid \<in> set uids. length (glob uid) = 1
      then Inr (dict_of (map (\<lambda>uid. (uid, glob uid ! 0)) uids))
      else Inl AssertionError)
   \<and> (get_standard_usage lines = Inr uid2split
        \<and> (\<exists>uid \<in> set (map fst uid2split). length (glob uid) \<noteq> 1)
      \<longrightarrow> VoxCeleb1SID_init glob lines = Inl AssertionError)"
proof -
  have "VoxCeleb1SID_init glob lines = Inl AssertionError"
    if u: "get_standard_usage lines = Inr uid2split"
      and bad: "\<exists>uid \<in> set (map fst uid2split). length (glob uid) \<noteq> 1"
  proof -
    have "\<not> (\<forall>uid \<in> set (sort (map fst uid2split)). length (glob uid) = 1)"
      using bad by auto
    then have "find_wavs_with_uids glob (sort (map fst uid2split)) = Inl AssertionError"
      by (simp only: find_wavs_char if_False)
    then show ?thesis using u by (simp add: VoxCeleb1SID_init_def)
  qed
  then show ?thesis using find_wavs_char by blast
qed

text \<open>
  C8 at concrete inputs: an empty data set makes the constructor fail, and a data set with
  one file per identifier gives the mapping.
\<close>

theorem find_wavs_needs_exactly_one_witness:
  "get_standard_usage [''1 id10001/a/00001.wav''] = Inr [(''id10001/a/00001.wav'', ''train'')]
   \<and> length ((\<lambda>uid. [] :: string list) ''id10001/a/00001.wav'') \<noteq> 1
   \<and> VoxCeleb1SID_init (\<lambda>uid. [] :: string list) [''1 id10001/a/00001.wav''] = Inl AssertionError
   \<and> find_wavs_with_uids (\<lambda>uid. [''root/id10001/wav/'' @ uid]) [''a'', ''b'']
       = Inr [(''a'', ''root/id10001/wav/a''), (''b'', ''root/id10001/wav/b'')]"
proof -
  have u: "get_standard_usage [''1 id10001/a/00001.wav''] = Inr [(''id10001/a/00001.wav'', ''train'')]"
    by (simp add: manifest_eval)
  have "VoxCeleb1SID_init (\<lambda>uid. [] :: string list) [''1 id10001/a/00001.wav''] = Inl AssertionError"
    using find_wavs_needs_exactly_one
      [of "\<lambda>uid. [] :: string list" "[]" "[''1 id10001/a/00001.wav'']" "[(''id10001/a/00001.wav'', ''train'')]"] u
    by simp
  moreover have "find_wavs_with_uids (\<lambda>uid. [''root/id10001/wav/'' @ uid]) [''a'', ''b'']
       = Inr [(''a'', ''root/id10001/wav/a''), (''b'', ''root/id10001/wav/b'')]"
    using find_wavs_needs_exactly_one
      [of "\<lambda>uid. [''root/id10001/wav/'' @ uid]" "[''a'', ''b'']" "[]" "[]"]
    by (simp add: dict_of_def)
  ultimately show ?thesis using u by simp
qed

subsection \<open>The split lists\<close>

lemma code2split_range: "code2split c = Inr s \<Longrightarrow> s \<in> {''train'', ''valid'', ''test''}"
  by (auto simp: code2split_cases split: if_splits)

lemma standard_usage_dict_inv:
  "standard_usage_dict fs d = Inr u \<Longrightarrow> distinct (map fst d) \<Longrightarrow>
   snd ` set d \<subseteq> {''train'', ''valid'', ''test''} \<Longrightarrow>
   distinct (map fst u) \<and> snd ` set u \<subseteq> {''train'', ''valid'', ''test''}"
proof (induction fs arbitrary: d)
  case Nil
  then show ?case by simp
next
  case (Cons fields rest)
  from Cons.prems(1) obtain split uid code s where
    f: "fields = [split, uid]" and i: "py_int split = Inr code" and c: "code2split code = Inr s"
    and r: "standard_usage_dict rest (AList.update uid s d) = Inr u"
    by (auto split: list.splits sum.splits)
  have d1: "distinct (map fst (AList.update uid s d))"
    using Cons.prems(2) by (rule AList.distinct_update)
  have "set (AList.update uid s d) \<subseteq> insert (uid, s) (set d)"
    by (induction d) auto
  then have d2: "snd ` set (AList.update uid s d) \<subseteq> {''train'', ''valid'', ''test''}"
    using Cons.prems(3) code2split_range[OF c] by fastforce
  show ?case using Cons.IH[OF r d1 d2] .
qed

lemma standard_usage_dict_keys:
  "standard_usage_dict fs d = Inr u \<Longrightarrow>
   fst ` set u = fst ` set d \<union> (\<lambda>fields. fields ! 1) ` set fs"
proof (induction fs arbitrary: d)
  case Nil
  then show ?case by simp
next
  case (Cons fields rest)
  from Cons.prems(1) obtain split uid code s where
    f: "fields = [split, uid]" and i: "py_int split = Inr code" and c: "code2split code = Inr s"
    and r: "standard_usage_dict rest (AList.update uid s d) = Inr u"
    by (auto split: list.splits sum.splits)
  have "fst ` set u = fst ` set (AList.update uid s d) \<union> (\<lambda>fields. fields ! 1) ` set rest"
    using Cons.IH[OF r] .
  then show ?case using f by (auto simp: AList.dom_update)
qed

lemma split2uids_loop_filter:
  "split2uids_loop items d s = d s @ map uid_key (map fst (filter (\<lambda>p. snd p = s) items))"
proof (induction items arbitrary: d)
  case Nil
  then show ?case by simp
next
  case (Cons item items)
  obtain uid split where it: "item = (uid, split)" by (cases item)
  show ?case unfolding it split2uids_loop.simps Cons.IH by simp
qed

lemma distinct_keys_two_filters:
  assumes "distinct (map fst u)" "\<And>p. \<not> (P p \<and> Q p)"
  shows "set (map fst (filter P u)) \<inter> set (map fst (filter Q u)) = {}"
proof (rule ccontr)
  assume "set (map fst (filter P u)) \<inter> set (map fst (filter Q u)) \<noteq> {}"
  then obtain k a b where "(k, a) \<in> set u" "P (k, a)" "(k, b) \<in> set u" "Q (k, b)"
    by auto
  moreover from this assms(1) have "a = b" by (meson eq_key_imp_eq_value)
  ultimately show False using assms(2) by blast
qed

lemma three_filters_cover:
  assumes "snd ` set u \<subseteq> {a, b, c}"
  shows "set (map fst (filter (\<lambda>p. snd p = a) u)) \<union> set (map fst (filter (\<lambda>p. snd p = b) u))
          \<union> set (map fst (filter (\<lambda>p. snd p = c) u)) = set (map fst u)"
proof
  show "set (map fst (filter (\<lambda>p. snd p = a) u)) \<union> set (map fst (filter (\<lambda>p. snd p = b) u))
          \<union> set (map fst (filter (\<lambda>p. snd p = c) u)) \<subseteq> set (map fst u)"
    by auto
  show "set (map fst u) \<subseteq> set (map fst (filter (\<lambda>p. snd p = a) u))
          \<union> set (map fst (filter (\<lambda>p. snd p = b) u)) \<union> set (map fst (filter (\<lambda>p. snd p = c) u))"
  proof
    fix k assume "k \<in> set (map fst u)"
    then obtain p where p: "p \<in> set u" "fst p = k" by auto
    then have "snd p = a \<or> snd p = b \<or> snd p = c" using assms by auto
    then show "k \<in> set (map fst (filter (\<lambda>p. snd p = a) u))
          \<union> set (map fst (filter (\<lambda>p. snd p = b) u)) \<union> set (map fst (filter (\<lambda>p. snd p = c) u))"
      using p by force
  qed
qed

lemma three_filters_distinct:
  assumes "distinct (map fst u)" "a \<noteq> b" "a \<noteq> c" "b \<noteq> c"
  shows "distinct (map fst (filter (\<lambda>p. snd p = a) u) @ map fst (filter (\<lambda>p. snd p = b) u)
          @ map fst (filter (\<lambda>p. snd p = c) u))"
proof -
  have 1: "set (map fst (filter (\<lambda>p. snd p = a) u)) \<inter> set (map fst (filter (\<lambda>p. snd p = b) u)) = {}"
    using assms by (intro distinct_keys_two_filters) auto
  have 2: "set (map fst (filter (\<lambda>p. snd p = a) u)) \<inter> set (map fst (filter (\<lambda>p. snd p = c) u)) = {}"
    using assms by (intro distinct_keys_two_filters) auto
  have 3: "set (map fst (filter (\<lambda>p. snd p = b) u)) \<inter> set (map fst (filter (\<lambda>p. snd p = c) u)) = {}"
    using assms by (intro distinct_keys_two_filters) auto
  have 4: "\<And>P. distinct (map fst (filter P u))" using assms(1) by (rule distinct_map_filter)
  show ?thesis using 1 2 3 4 by (simp only: distinct_append set_append Int_Un_distrib) simp
qed

lemma init_split2uids:
  "VoxCeleb1SID_init glob lines = Inr c \<Longrightarrow> get_standard_usage lines = Inr u \<Longrightarrow>
   split2uids c = split2uids_loop u (\<lambda>_. [])"
  by (auto simp: VoxCeleb1SID_init_def Let_def split: sum.splits)

lemma split_ids_as_filters:
  assumes "VoxCeleb1SID_init glob lines = Inr c" "get_standard_usage lines = Inr u"
  shows "data_split_ids c =
     (map uid_key (map fst (filter (\<lambda>p. snd p = ''train'') u)),
      map uid_key (map fst (filter (\<lambda>p. snd p = ''valid'') u)),
      map uid_key (map fst (filter (\<lambda>p. snd p = ''test'') u)))"
  using init_split2uids[OF assms] by (simp add: data_split_ids_def split2uids_loop_filter)

lemma manifest_dict_props:
  assumes "get_standard_usage lines = Inr u"
  shows "distinct (map fst u)" "snd ` set u \<subseteq> {''train'', ''valid'', ''test''}"
    "set (map fst u) = set (map (\<lambda>line. split_on CHR '' '' (strip line) ! 1) lines)"
proof -
  have a: "standard_usage_dict (map (\<lambda>line. split_on CHR '' '' (strip line)) lines) [] = Inr u"
    using assms by (simp add: get_standard_usage_def)
  show "distinct (map fst u)" "snd ` set u \<subseteq> {''train'', ''valid'', ''test''}"
    using standard_usage_dict_inv[OF a] by simp_all
  show "set (map fst u) = set (map (\<lambda>line. split_on CHR '' '' (strip line) ! 1) lines)"
    using standard_usage_dict_keys[OF a] by (simp add: image_image)
qed

lemma split_ids_partition:
  assumes i: "VoxCeleb1SID_init glob lines = Inr c" and g: "get_standard_usage lines = Inr u"
    and d: "data_split_ids c = (train, valid, test)"
  shows "set train \<union> set valid \<union> set test = uid_key ` set (map fst u)"
    and "inj_on uid_key (set (map fst u)) \<Longrightarrow> distinct (train @ valid @ test)"
proof -
  let ?f = "\<lambda>s. map fst (filter (\<lambda>p. snd p = s) u)"
  have tr: "train = map uid_key (?f ''train'')" and va: "valid = map uid_key (?f ''valid'')"
    and te: "test = map uid_key (?f ''test'')"
    using split_ids_as_filters[OF i g] d by simp_all
  note props = manifest_dict_props[OF g]
  have cover: "set (?f ''train'') \<union> set (?f ''valid'') \<union> set (?f ''test'') = set (map fst u)"
    using props(2) by (rule three_filters_cover)
  show "set train \<union> set valid \<union> set test = uid_key ` set (map fst u)"
    unfolding tr va te using cover by (simp only: set_map image_Un[symmetric])
  assume inj: "inj_on uid_key (set (map fst u))"
  have dk: "distinct (?f ''train'' @ ?f ''valid'' @ ?f ''test'')"
    using props(1) by (rule three_filters_distinct) simp_all
  have sub: "set (?f ''train'' @ ?f ''valid'' @ ?f ''test'') \<subseteq> set (map fst u)"
    using cover by auto
  have "distinct (map uid_key (?f ''train'' @ ?f ''valid'' @ ?f ''test''))"
    using dk inj sub by (simp only: distinct_map) (meson inj_on_subset)
  then show "distinct (train @ valid @ test)" unfolding tr va te by simp
qed

lemma map_of_dict_of_snoc:
  "map_of (foldl (\<lambda>d (k, v). AList.update k v d) d0 kvs) = map_of d0 ++ map_of (rev kvs)"
  by (induction kvs arbitrary: d0) (auto simp: AList.update_conv' map_add_upd_left fun_eq_iff map_add_def split: option.splits)

lemma map_of_dict_of_map:
  "map_of (dict_of (map (\<lambda>k. (k, f k)) ks)) k = (if k \<in> set ks then Some (f k) else None)"
proof -
  have "map_of (rev (map (\<lambda>k. (k, f k)) ks)) k = (if k \<in> set ks then Some (f k) else None)"
    by (induction ks) (auto simp: map_add_def split: option.splits)
  then show ?thesis by (simp add: dict_of_def map_of_dict_of_snoc)
qed

lemma uid_key_ex1: "uid_key ''id10001/a/b.wav'' = ''id10001-a-b''"
  by (simp add: uid_key_def path_stem_def replace_char_def rfind_def Let_def)

lemma uid_key_ex2: "uid_key ''id10001/a-b.wav'' = ''id10001-a-b''"
  by (simp add: uid_key_def path_stem_def replace_char_def rfind_def Let_def)

lemmas label_eval = build_label_def py_int_def int_strip_def is_int_space_def parse_nat_def
        is_digit_def digit_val_def str_int_def digit_char_def str_nat_small str_nat_big

text \<open>
  C4 as stated fails: the split lists hold the keys \<open>Path(uid.replace("/", "-")).stem\<close>,
  and two identifiers of the manifest can have the same key. Here the train list and the
  valid list hold the same key, so the lists are not disjoint.
\<close>

theorem colliding_keys_in_two_splits:
  "map_sum id data_split_ids
     (VoxCeleb1SID_init (\<lambda>uid. [''dev/wav/'' @ uid]) [''1 id10001/a/b.wav'', ''2 id10001/a-b.wav''])
   = Inr ([''id10001-a-b''], [''id10001-a-b''], [])"
proof -
  have u: "get_standard_usage [''1 id10001/a/b.wav'', ''2 id10001/a-b.wav'']
     = Inr [(''id10001/a/b.wav'', ''train''), (''id10001/a-b.wav'', ''valid'')]"
    by (simp add: manifest_eval)
  have l1: "build_label ''id10001/a/b.wav'' = Inr ''speaker_0''" by (simp add: label_eval)
  have l2: "build_label ''id10001/a-b.wav'' = Inr ''speaker_0''" by (simp add: label_eval)
  show ?thesis
    by (simp add: VoxCeleb1SID_init_def u find_wavs_char data_entry_def map_of_dict_of_map l1 l2
        data_split_ids_def uid_key_ex1 uid_key_ex2 dict_of_def)
qed

lemma distinct_keys_unique_value:
  assumes "distinct (map fst u)" "k \<in> set (map fst u)"
  shows "\<exists>!s. (k, s) \<in> set u"
proof -
  obtain s where "(k, s) \<in> set u" using assms(2) by auto
  then show ?thesis using assms(1) by (meson eq_key_imp_eq_value)
qed

text \<open>
  C4 (as amended). After construction, the dictionary read from the manifest has exactly the
  manifest's identifiers as keys, each with exactly one split among train, valid and test.
  The train, valid and test lists are the keys \<open>uid_key uid\<close> of the identifiers of
  that split, and their union is the set of keys of all identifiers. When \<open>uid_key\<close> is
  injective on the manifest's identifiers, the three lists are pairwise disjoint and without
  repetition.
\<close>

theorem split_ids_partition_normalised:
  assumes "VoxCeleb1SID_init glob lines = Inr c" and "get_standard_usage lines = Inr u"
    and "data_split_ids c = (train, valid, test)"
  shows "set (map fst u) = set (map (\<lambda>line. split_on CHR '' '' (strip line) ! 1) lines)
    \<and> (\<forall>uid \<in> set (map fst u). \<exists>!s. (uid, s) \<in> set u)
    \<and> snd ` set u \<subseteq> {''train'', ''valid'', ''test''}
    \<and> train = map uid_key (map fst (filter (\<lambda>p. snd p = ''train'') u))
    \<and> valid = map uid_key (map fst (filter (\<lambda>p. snd p = ''valid'') u))
    \<and> test = map uid_key (map fst (filter (\<lambda>p. snd p = ''test'') u))
    \<and> set train \<union> set valid \<union> set test = uid_key ` set (map fst u)
    \<and> (inj_on uid_key (set (map fst u)) \<longrightarrow> distinct (train @ valid @ test))"
proof -
  note props = manifest_dict_props[OF assms(2)]
  have 1: "\<forall>uid \<in> set (map fst u). \<exists>!s. (uid, s) \<in> set u"
    using distinct_keys_unique_value[OF props(1)] by blast
  have 2: "train = map uid_key (map fst (filter (\<lambda>p. snd p = ''train'') u))"
    "valid = map uid_key (map fst (filter (\<lambda>p. snd p = ''valid'') u))"
    "test = map uid_key (map fst (filter (\<lambda>p. snd p = ''test'') u))"
    using split_ids_as_filters[OF assms(1,2)] assms(3) by simp_all
  show ?thesis
    using props(2,3) 1 2 split_ids_partition[OF assms] by blast
qed

text \<open>C4 (as amended) at a manifest of two lines.\<close>

theorem split_ids_partition_normalised_witness:
  "VoxCeleb1SID_init (\<lambda>uid. [''dev/wav/'' @ uid]) [''1 id10001/a/b.wav'', ''2 id10002/c/d.wav'']
     = Inr \<lparr>split2uids = (\<lambda>_. [])(''train'' := [''id10001-a-b''], ''valid'' := [''id10002-c-d'']),
            all_data = [(''id10001-a-b'', ''dev/wav/id10001/a/b.wav'', ''speaker_0''),
                        (''id10002-c-d'', ''dev/wav/id10002/c/d.wav'', ''speaker_1'')]\<rparr>
   \<and> get_standard_usage [''1 id10001/a/b.wav'', ''2 id10002/c/d.wav'']
     = Inr [(''id10001/a/b.wav'', ''train''), (''id10002/c/d.wav'', ''valid'')]
   \<and> inj_on uid_key {''id10001/a/b.wav'', ''id10002/c/d.wav''}
   \<and> distinct ([''id10001-a-b''] @ [''id10002-c-d''] @ [])
   \<and> set [''id10001-a-b''] \<union> set [''id10002-c-d''] \<union> set []
       = uid_key ` {''id10001/a/b.wav'', ''id10002/c/d.wav''}"
proof -
  let ?G = "\<lambda>uid. [''dev/wav/'' @ uid]"
  let ?L = "[''1 id10001/a/b.wav'', ''2 id10002/c/d.wav'']"
  let ?U = "[(''id10001/a/b.wav'', ''train''), (''id10002/c/d.wav'', ''valid'')]"
  let ?C = "\<lparr>split2uids = (\<lambda>_. [])(''train'' := [''id10001-a-b''], ''valid'' := [''id10002-c-d'']),
            all_data = [(''id10001-a-b'', ''dev/wav/id10001/a/b.wav'', ''speaker_0''),
                        (''id10002-c-d'', ''dev/wav/id10002/c/d.wav'', ''speaker_1'')]\<rparr>"
  have k1: "uid_key ''id10001/a/b.wav'' = ''id10001-a-b''"
    by (simp add: uid_key_def path_stem_def replace_char_def rfind_def Let_def)
  have k2: "uid_key ''id10002/c/d.wav'' = ''id10002-c-d''"
    by (simp add: uid_key_def path_stem_def replace_char_def rfind_def Let_def)
  have u: "get_standard_usage ?L = Inr ?U" by (simp add: manifest_eval)
  have l1: "build_label ''id10001/a/b.wav'' = Inr ''speaker_0''" by (simp add: label_eval)
  have l2: "build_label ''id10002/c/d.wav'' = Inr ''speaker_1''" by (simp add: label_eval)
  have i: "VoxCeleb1SID_init ?G ?L = Inr ?C"
    by (simp add: VoxCeleb1SID_init_def u find_wavs_char data_entry_def l1 l2 k1 k2 dict_of_def)
  have d: "data_split_ids ?C = ([''id10001-a-b''], [''id10002-c-d''], [])"
    by (simp add: data_split_ids_def)
  have inj: "inj_on uid_key {''id10001/a/b.wav'', ''id10002/c/d.wav''}"
    by (simp add: k1 k2)
  note t = split_ids_partition_normalised[OF i u d]
  have "inj_on uid_key (set (map fst ?U)) \<longrightarrow> distinct ([''id10001-a-b''] @ [''id10002-c-d''] @ [])"
    using t by blast
  then have dist: "distinct ([''id10001-a-b''] @ [''id10002-c-d''] @ [])"
    using inj by simp
  have "set [''id10001-a-b''] \<union> set [''id10002-c-d''] \<union> set [] = uid_key ` set (map fst ?U)"
    using t by blast
  then have cov: "set [''id10001-a-b''] \<union> set [''id10002-c-d''] \<union> set []
       = uid_key ` {''id10001/a/b.wav'', ''id10002/c/d.wav''}"
    by simp
  show ?thesis
    using i u inj dist cov by blast
qed

section \<open>Properties of the scoring head\<close>

subsection \<open>Rows, blocks and flat indices\<close>

lemma row_nth:
  assumes "i * h + h \<le> length xs"
  shows "row h xs i = map (\<lambda>j. xs ! (i * h + j)) [0..<h]"
  using assms by (intro nth_equalityI) (auto simp: row_def)

lemma row_map_upt:
  assumes "i * h + h \<le> M"
  shows "row h (map g [0..<M]) i = map (\<lambda>j. g (i * h + j)) [0..<h]"
proof -
  have "row h (map g [0..<M]) i = map (\<lambda>j. map g [0..<M] ! (i * h + j)) [0..<h]"
    using assms by (intro row_nth) simp
  also have "\<dots> = map (\<lambda>j. g (i * h + j)) [0..<h]"
    using assms by (intro map_cong) auto
  finally show ?thesis .
qed

lemma block_index_less:
  fixes n t T N :: nat
  assumes "n < N" "t < T"
  shows "n * T + t < N * T" "(n * T + t) * H + H \<le> N * T * H"
proof -
  have "n * T + t < n * T + T" using assms by simp
  also have "\<dots> = (n + 1) * T" by simp
  also have "\<dots> \<le> N * T" using assms by (intro mult_le_mono1) simp
  finally show a: "n * T + t < N * T" .
  then have "(n * T + t) + 1 \<le> N * T" by simp
  then have "((n * T + t) + 1) * H \<le> (N * T) * H" by (rule mult_le_mono1)
  then show "(n * T + t) * H + H \<le> N * T * H" by simp
qed

lemma sum_list_upt: "sum_list (map f [0..<n]) = (\<Sum>i<n. f i)"
  by (simp add: interv_sum_list_conv_sum_set_nat atLeast0LessThan)

subsection \<open>Mean pooling on a batch\<close>

lemma Linear_forward_batch:
  assumes "batch_shape N T H x" "length (weight l) = H"
  shows "Linear_forward l x =
     Inr \<lparr>shape = [N, T, 1],
          elems = map (\<lambda>i. dot (weight l) (row H (elems x) i) + bias l) [0..<N * T]\<rparr>"
  using assms by (simp add: Linear_forward_def batch_shape_def numel_def)

lemma segment_score_mean:
  assumes b: "batch_shape N T H x" and p: "pooling m = None" and l: "length (weight (linear m)) = H"
  shows "segment_score m x =
     Inr \<lparr>shape = [N],
          elems = map (\<lambda>n. if T = 0 then NaN
                            else Score ((\<Sum>t<T. logit (linear m) T H x n t) / real T)) [0..<N]\<rparr>"
proof -
  let ?g = "\<lambda>i. dot (weight (linear m)) (row H (elems x) i) + bias (linear m)"
  have rows: "sum_list (row T (map ?g [0..<N * T]) n) = (\<Sum>t<T. logit (linear m) T H x n t)"
    if "n < N" for n
  proof -
    have "n * T + T \<le> N * T" using that
      by (metis Suc_leI mult_Suc mult_le_mono1 add.commute)
    then have "row T (map ?g [0..<N * T]) n = map (\<lambda>t. ?g (n * T + t)) [0..<T]"
      by (rule row_map_upt)
    then show ?thesis by (simp add: sum_list_upt logit_def frame_def)
  qed
  have "segment_score m x =
     Inr \<lparr>shape = [N],
          elems = map (\<lambda>n. if T = 0 then NaN
                            else Score (sum_list (row T (map ?g [0..<N * T]) n) / real T)) [0..<N]\<rparr>"
    by (simp add: segment_score_def p Linear_forward_batch[OF b l] squeeze_last_def mean_last_def
        numel_def)
  also have "\<dots> = Inr \<lparr>shape = [N],
          elems = map (\<lambda>n. if T = 0 then NaN
                            else Score ((\<Sum>t<T. logit (linear m) T H x n t) / real T)) [0..<N]\<rparr>"
    using rows by simp
  finally show ?thesis .
qed

lemma permute_frames_shape:
  assumes "batch_shape N T H x"
  shows "batch_shape N T H (permute_frames \<pi> x)"
  using assms by (simp add: batch_shape_def permute_frames_def)

lemma flat_index_parts:
  fixes n t h T H :: nat
  assumes "t < T" "h < H"
  shows "((n * T + t) * H + h) div H = n * T + t"
    and "((n * T + t) * H + h) mod H = h"
    and "((n * T + t) * H + h) div (T * H) = n"
    and "(n * T + t) mod T = t"
    and "(n * T + t) div T = n"
proof -
  show 1: "((n * T + t) * H + h) div H = n * T + t" using assms by simp
  show "((n * T + t) * H + h) mod H = h" using assms by simp
  show 2: "(n * T + t) div T = n" using assms by simp
  show "(n * T + t) mod T = t" using assms by simp
  have "((n * T + t) * H + h) div (T * H) = (((n * T + t) * H + h) div H) div T"
    by (simp add: div_mult2_eq mult.commute)
  then show "((n * T + t) * H + h) div (T * H) = n" using 1 2 by simp
qed

lemma frame_permute_frames:
  assumes b: "batch_shape N T H x" and n: "n < N" and t: "t < T" and pt: "\<pi> t < T"
  shows "frame T H (permute_frames \<pi> x) n t = frame T H x n (\<pi> t)"
proof -
  let ?g = "\<lambda>k. elems x ! (((k div (T * H)) * T + \<pi> ((k div H) mod T)) * H + k mod H)"
  have e: "elems (permute_frames \<pi> x) = map ?g [0..<N * T * H]"
    using b by (simp add: batch_shape_def permute_frames_def)
  have "frame T H (permute_frames \<pi> x) n t = map (\<lambda>h. ?g ((n * T + t) * H + h)) [0..<H]"
    unfolding frame_def e using block_index_less(2)[OF n t] by (rule row_map_upt)
  also have "\<dots> = map (\<lambda>h. elems x ! ((n * T + \<pi> t) * H + h)) [0..<H]"
    using t by (intro map_cong) (auto simp: flat_index_parts)
  also have "\<dots> = frame T H x n (\<pi> t)"
    unfolding frame_def using block_index_less(2)[OF n pt] b
    by (intro row_nth[symmetric]) (simp add: batch_shape_def)
  finally show ?thesis .
qed

lemma sum_reindex_perm:
  fixes f :: "nat \<Rightarrow> real"
  assumes "bij_betw \<pi> {..<T} {..<T}"
  shows "(\<Sum>t<T. f (\<pi> t)) = (\<Sum>t<T. f t)"
  using assms by (rule sum.reindex_bij_betw)

lemma segment_score_mean_permute:
  assumes b: "batch_shape N T H x" and p: "pooling m = None" and l: "length (weight (linear m)) = H"
    and bij: "bij_betw \<pi> {..<T} {..<T}"
  shows "segment_score m (permute_frames \<pi> x) = segment_score m x"
proof -
  have pi: "\<pi> t < T" if "t < T" for t using bij that by (auto simp: bij_betw_def)
  have "(\<Sum>t<T. logit (linear m) T H (permute_frames \<pi> x) n t) = (\<Sum>t<T. logit (linear m) T H x n t)"
    if n: "n < N" for n
  proof -
    have "(\<Sum>t<T. logit (linear m) T H (permute_frames \<pi> x) n t)
        = (\<Sum>t<T. logit (linear m) T H x n (\<pi> t))"
      using frame_permute_frames[where \<pi>=\<pi>, OF b n] pi by (intro sum.cong) (auto simp: logit_def)
    then show ?thesis using sum_reindex_perm[OF bij] by simp
  qed
  then show ?thesis
    unfolding segment_score_mean[OF b p l] segment_score_mean[OF permute_frames_shape[OF b] p l]
    by simp
qed

subsection \<open>Attention pooling on a batch\<close>

lemma attention_weight_batch:
  assumes b: "batch_shape N T H x" and l: "length (weight (W p)) = H"
  shows "attention_weight p x =
     Inr \<lparr>shape = [N, T, 1],
          elems = map (\<lambda>k. att_w (W p) T H x (k div T) (k mod T)) [0..<N * T]\<rparr>"
proof -
  let ?g = "\<lambda>i. dot (weight (W p)) (row H (elems x) i) + bias (W p)"
  have g: "?g (n * T + t) = logit (W p) T H x n t" for n t
    by (simp add: logit_def frame_def)
  have el: "exp (map ?g [0..<N * T] ! k)
        / sum_list (map (\<lambda>j. exp (map ?g [0..<N * T] ! along T 1 k j)) [0..<T])
      = att_w (W p) T H x (k div T) (k mod T)" if k: "k < N * T" for k
  proof -
    have T: "0 < T" using k by (cases T) auto
    have kd: "k div T < N" using k by (simp add: less_mult_imp_div_less)
    have 1: "map ?g [0..<N * T] ! k = logit (W p) T H x (k div T) (k mod T)"
      using k g[of "k div T" "k mod T"] by simp
    have 2: "map ?g [0..<N * T] ! along T 1 k j = logit (W p) T H x (k div T) j" if "j < T" for j
    proof -
      have "along T 1 k j = (k div T) * T + j" by (simp add: along_def)
      moreover have "(k div T) * T + j < N * T" using block_index_less(1)[OF kd that] .
      ultimately show ?thesis using g[of "k div T" j] by simp
    qed
    have "sum_list (map (\<lambda>j. exp (map ?g [0..<N * T] ! along T 1 k j)) [0..<T])
        = (\<Sum>j<T. exp (logit (W p) T H x (k div T) j))"
      unfolding sum_list_upt using 2 by (intro sum.cong) auto
    then show ?thesis using 1 by (simp add: att_w_def)
  qed
  have "attention_weight p x =
     Inr \<lparr>shape = [N, T, 1],
          elems = map (\<lambda>k. exp (map ?g [0..<N * T] ! k)
        / sum_list (map (\<lambda>j. exp (map ?g [0..<N * T] ! along T 1 k j)) [0..<T])) [0..<N * T]\<rparr>"
    by (simp add: attention_weight_def Linear_forward_batch[OF b l] squeeze_last_def softmax_def
        get_softmax_dim_def softmax_dim_def unsqueeze_last_def numel_def)
  also have "\<dots> = Inr \<lparr>shape = [N, T, 1],
          elems = map (\<lambda>k. att_w (W p) T H x (k div T) (k mod T)) [0..<N * T]\<rparr>"
    using el by simp
  finally show ?thesis .
qed

lemma flat_index_split:
  fixes k N T H :: nat
  assumes "k < N * T * H"
  shows "(if N = 1 then 0 else k div (T * H)) * (T * H)
          + ((if T = 1 then 0 else k mod (T * H) div H) * H
             + (if H = 1 then 0 else k mod (T * H) mod H)) = k"
    and "(if N = 1 then 0 else k div (T * H)) * T
          + (if T = 1 then 0 else k mod (T * H) div H) = k div H"
proof -
  have H: "0 < H" and T: "0 < T" using assms by (cases H; cases T; simp)+
  have a: "(if N = 1 then 0 else k div (T * H)) = k div (T * H)" using assms by auto
  have b: "(if T = 1 then 0 else k mod (T * H) div H) = k mod (T * H) div H" by auto
  have c: "(if H = 1 then 0 else k mod (T * H) mod H) = k mod (T * H) mod H" by auto
  have r: "k mod (T * H) div H * H + k mod (T * H) mod H = k mod (T * H)"
    by (rule div_mult_mod_eq)
  have q: "k div (T * H) * (T * H) + k mod (T * H) = k"
    by (rule div_mult_mod_eq)
  show "(if N = 1 then 0 else k div (T * H)) * (T * H)
          + ((if T = 1 then 0 else k mod (T * H) div H) * H
             + (if H = 1 then 0 else k mod (T * H) mod H)) = k"
    unfolding a b c r q ..
  have "k div H = (k mod (T * H) + (k div (T * H) * T) * H) div H"
    using q by (simp add: ac_simps)
  also have "\<dots> = k mod (T * H) div H + k div (T * H) * T"
    using H by simp
  finally show "(if N = 1 then 0 else k div (T * H)) * T
          + (if T = 1 then 0 else k mod (T * H) div H) = k div H"
    unfolding a b by simp
qed

lemma mul_batch_weights:
  assumes b: "batch_shape N T H x"
  shows "mul x \<lparr>shape = [N, T, 1], elems = map \<omega> [0..<N * T]\<rparr> =
     Inr \<lparr>shape = [N, T, H], elems = map (\<lambda>k. elems x ! k * \<omega> (k div H)) [0..<N * T * H]\<rparr>"
proof -
  have s: "broadcast_shapes [N, T, H] [N, T, 1] = Inr [N, T, H]"
    by (simp add: broadcast_shapes_def pad_shape_def)
  have el: "elems x ! broadcast_index (pad_shape 3 [N, T, H]) (unravel [N, T, H] k)
            * map \<omega> [0..<N * T] ! broadcast_index (pad_shape 3 [N, T, 1]) (unravel [N, T, H] k)
          = elems x ! k * \<omega> (k div H)" if k: "k < N * T * H" for k
  proof -
    have H: "0 < H" using k by (cases H) auto
    have 1: "broadcast_index (pad_shape 3 [N, T, H]) (unravel [N, T, H] k) = k"
      using flat_index_split(1)[OF k] by (simp add: broadcast_index_def pad_shape_def numel_def)
    have 2: "broadcast_index (pad_shape 3 [N, T, 1]) (unravel [N, T, H] k) = k div H"
      using flat_index_split(2)[OF k] by (simp add: broadcast_index_def pad_shape_def numel_def)
    have "k div H < N * T" using k H by (simp add: less_mult_imp_div_less)
    then show ?thesis unfolding 1 2 by simp
  qed
  have sh: "shape x = [N, T, H]" using b by (simp add: batch_shape_def)
  have len: "length [N, T, H] = 3" by simp
  have m: "map (\<lambda>k. elems x ! broadcast_index (pad_shape 3 [N, T, H]) (unravel [N, T, H] k)
            * map \<omega> [0..<N * T] ! broadcast_index (pad_shape 3 [N, T, 1]) (unravel [N, T, H] k))
             [0..<numel [N, T, H]]
         = map (\<lambda>k. elems x ! k * \<omega> (k div H)) [0..<N * T * H]"
  proof -
    have nm: "numel [N, T, H] = N * T * H" by (simp add: numel_def mult.assoc)
    show ?thesis unfolding nm by (rule map_cong[OF refl]) (use el in simp)
  qed
  show ?thesis
    by (simp only: mul_def tensor.select_convs sh s sum.case len m)
qed

lemma sum_dim1_batch:
  "sum_dim1 \<lparr>shape = [N, T, H], elems = map P [0..<N * T * H]\<rparr> =
     Inr \<lparr>shape = [N, H],
          elems = map (\<lambda>k. \<Sum>j<T. P (((k div H) * T + j) * H + k mod H)) [0..<N * H]\<rparr>"
proof -
  have "sum_list (map (\<lambda>j. map P [0..<N * T * H] ! (((k div H) * T + j) * H + k mod H)) [0..<T])
      = (\<Sum>j<T. P (((k div H) * T + j) * H + k mod H))" if k: "k < N * H" for k
  proof -
    have H: "0 < H" using k by (cases H) auto
    have n: "k div H < N" using k H by (simp add: less_mult_imp_div_less)
    have "((k div H) * T + j) * H + k mod H < N * T * H" if j: "j < T" for j
    proof -
      have "((k div H) * T + j) * H + k mod H < ((k div H) * T + j) * H + H" using H by simp
      also have "\<dots> \<le> N * T * H" using block_index_less(2)[OF n j] .
      finally show ?thesis .
    qed
    then show ?thesis unfolding sum_list_upt by (intro sum.cong) auto
  qed
  then show ?thesis by (simp add: sum_dim1_def numel_def)
qed

lemma SelfAttentionPooling_forward_batch:
  assumes b: "batch_shape N T H x" and l: "length (weight (W p)) = H"
  shows "SelfAttentionPooling_forward p x =
     Inr \<lparr>shape = [N, H],
          elems = map (\<lambda>k. \<Sum>j<T. frame T H x (k div H) j ! (k mod H) * att_w (W p) T H x (k div H) j)
                      [0..<N * H]\<rparr>"
proof -
  let ?w = "\<lambda>k. att_w (W p) T H x (k div T) (k mod T)"
  have el: "(\<Sum>j<T. elems x ! (((k div H) * T + j) * H + k mod H)
                    * ?w ((((k div H) * T + j) * H + k mod H) div H))
      = (\<Sum>j<T. frame T H x (k div H) j ! (k mod H) * att_w (W p) T H x (k div H) j)"
    if k: "k < N * H" for k
  proof (rule sum.cong)
    fix j assume "j \<in> {..<T}"
    then have j: "j < T" by simp
    have H: "0 < H" using k by (cases H) auto
    have h: "k mod H < H" using H by simp
    have n: "k div H < N" using k H by (simp add: less_mult_imp_div_less)
    have "frame T H x (k div H) j = map (\<lambda>h. elems x ! ((k div H * T + j) * H + h)) [0..<H]"
      unfolding frame_def using block_index_less(2)[OF n j] b
      by (intro row_nth) (simp add: batch_shape_def)
    then have 1: "frame T H x (k div H) j ! (k mod H) = elems x ! ((k div H * T + j) * H + k mod H)"
      using h by simp
    show "elems x ! (((k div H) * T + j) * H + k mod H)
                    * ?w ((((k div H) * T + j) * H + k mod H) div H)
        = frame T H x (k div H) j ! (k mod H) * att_w (W p) T H x (k div H) j"
      unfolding 1 using flat_index_parts[OF j h, of "k div H"] by simp
  qed simp
  show ?thesis
    unfolding SelfAttentionPooling_forward_def attention_weight_batch[OF b l] sum.case
      mul_batch_weights[OF b] sum_dim1_batch
    using el by simp
qed

lemma segment_score_attention:
  assumes b: "batch_shape N T H x" and p: "pooling m = Some p"
    and l: "length (weight (W p)) = H" and l': "length (weight (linear m)) = H"
  shows "segment_score m x =
     Inr \<lparr>shape = [N, 1],
          elems = map (\<lambda>n. Score (dot (weight (linear m)) (pooled_frame (W p) T H x n) + bias (linear m)))
                      [0..<N]\<rparr>"
proof -
  let ?Q = "\<lambda>k. \<Sum>j<T. frame T H x (k div H) j ! (k mod H) * att_w (W p) T H x (k div H) j"
  have rows: "row H (map ?Q [0..<N * H]) n = pooled_frame (W p) T H x n" if n: "n < N" for n
  proof -
    have "n * H + H \<le> N * H" using n by (metis Suc_leI mult_Suc mult_le_mono1 add.commute)
    then have "row H (map ?Q [0..<N * H]) n = map (\<lambda>h. ?Q (n * H + h)) [0..<H]"
      by (rule row_map_upt)
    also have "\<dots> = pooled_frame (W p) T H x n"
      unfolding pooled_frame_def by (intro map_cong) auto
    finally show ?thesis .
  qed
  show ?thesis
    unfolding segment_score_def p option.case SelfAttentionPooling_forward_batch[OF b l]
    using rows l' by (simp add: Linear_forward_def numel_def map_tensor_def)
qed

subsection \<open>What \<open>forward\<close> returns\<close>

lemma Model_forward_mean:
  assumes b: "batch_shape N T H x" and p: "pooling m = None" and l: "length (weight (linear m)) = H"
  shows "Model_forward m x =
     Inr \<lparr>shape = (if N = 1 then [] else [N]),
          elems = map (\<lambda>n. (if clipping m then clip else id)
                              (if T = 0 then NaN
                               else Score ((\<Sum>t<T. logit (linear m) T H x n t) / real T)))
                      [0..<N]\<rparr>"
  unfolding Model_forward_def segment_score_mean[OF b p l]
  by (simp add: squeeze_last_def map_tensor_def)

lemma Model_forward_attention:
  assumes b: "batch_shape N T H x" and p: "pooling m = Some p"
    and l: "length (weight (W p)) = H" and l': "length (weight (linear m)) = H"
  shows "Model_forward m x =
     Inr \<lparr>shape = [N],
          elems = map (\<lambda>n. (if clipping m then clip else id)
                              (Score (dot (weight (linear m)) (pooled_frame (W p) T H x n)
                                      + bias (linear m))))
                      [0..<N]\<rparr>"
  unfolding Model_forward_def segment_score_attention[OF b p l l']
  by (simp add: squeeze_last_def map_tensor_def)

lemmas batch_eval = batch_shape_def model_of_def

lemma model_of_Some: "model_of H m \<Longrightarrow> pooling m = Some p \<Longrightarrow> length (weight (W p)) = H"
  by (simp add: model_of_def)

lemma model_of_linear: "model_of H m \<Longrightarrow> length (weight (linear m)) = H"
  by (simp add: model_of_def)

text \<open>
  C1. For every batch of shape \<open>(N, T, H)\<close> and every model built with \<open>input_dim = H\<close>
  (mean or attention pooling, with or without clipping), \<open>forward\<close> returns a tensor of
  exactly \<open>N\<close> scores. Its shape is \<open>(N)\<close>, except that the final \<open>squeeze(-1)\<close>
  turns the one score of a batch of one sequence into a scalar under mean pooling.
\<close>

theorem forward_returns_one_score_per_sequence:
  assumes "batch_shape N T H x" and "model_of H m"
  shows "\<exists>y. Model_forward m x = Inr y \<and> length (elems y) = N
             \<and> shape y = (if pooling m = None \<and> N = 1 then [] else [N])"
proof (cases "pooling m")
  case None
  show ?thesis
    unfolding Model_forward_mean[OF assms(1) None model_of_linear[OF assms(2)]]
    using None by simp
next
  case (Some p)
  show ?thesis
    unfolding Model_forward_attention[OF assms(1) Some model_of_Some[OF assms(2) Some]
        model_of_linear[OF assms(2)]]
    using Some by simp
qed

text \<open>C1 at a batch of two sequences of two frames, under attention pooling with clipping.\<close>

theorem forward_returns_one_score_per_sequence_witness:
  "batch_shape 2 2 1 \<lparr>shape = [2, 2, 1], elems = [3, 5, 7, 9]\<rparr>
   \<and> model_of 1 \<lparr>linear = \<lparr>weight = [2], bias = 1\<rparr>, clipping = True,
                  pooling = Some \<lparr>W = \<lparr>weight = [1], bias = 0\<rparr>\<rparr>\<rparr>
   \<and> (\<exists>y. Model_forward \<lparr>linear = \<lparr>weight = [2], bias = 1\<rparr>, clipping = True,
                          pooling = Some \<lparr>W = \<lparr>weight = [1], bias = 0\<rparr>\<rparr>\<rparr>
               \<lparr>shape = [2, 2, 1], elems = [3, 5, 7, 9]\<rparr> = Inr y
          \<and> length (elems y) = 2 \<and> shape y = [2])"
proof -
  let ?x = "\<lparr>shape = [2, 2, 1], elems = [3, 5, 7, 9]\<rparr> :: real tensor"
  let ?m = "\<lparr>linear = \<lparr>weight = [2], bias = 1\<rparr>, clipping = True,
             pooling = Some \<lparr>W = \<lparr>weight = [1], bias = 0\<rparr>\<rparr>\<rparr>"
  have b: "batch_shape 2 2 1 ?x" by (simp add: batch_eval)
  have m: "model_of 1 ?m" by (simp add: batch_eval)
  show ?thesis using forward_returns_one_score_per_sequence[OF b m] b m by simp
qed





subsection \<open>Exact arithmetic\<close>

text \<open>
  The lemmas of this subsection are about the values of the scores, computed with real
  numbers. They do not carry over to the floating-point numbers of the program: there
  \<open>tanh\<close> and the addition of 3 round to the ends of the interval, and a sum depends on
  the order of its terms.
\<close>

lemma clip_range: "clip (Score r) = Score (tanh r * 2 + 3) \<and> 1 < tanh r * 2 + 3 \<and> tanh r * 2 + 3 < 5"
  using tanh_real_gt_neg1[of r] tanh_real_lt_1[of r] by (simp add: clip_def)

lemma segment_score_cases:
  assumes b: "batch_shape N T H x" and m: "model_of H m" and T: "0 < T \<or> pooling m \<noteq> None"
  shows "\<exists>raw. segment_score m x = Inr raw \<and> length (elems raw) = N
           \<and> (\<forall>n<N. \<exists>r. elems raw ! n = Score r)"
proof (cases "pooling m")
  case None
  then have "T \<noteq> 0" using T by simp
  then show ?thesis
    unfolding segment_score_mean[OF b None model_of_linear[OF m]] by simp
next
  case (Some p)
  show ?thesis
    unfolding segment_score_attention[OF b Some model_of_Some[OF m Some] model_of_linear[OF m]]
    by simp
qed

text \<open>
  With clipping, every score is \<open>tanh r * 2 + 3\<close> for the score \<open>r\<close> the pooling policy
  gave that sequence. For real numbers this value lies strictly between 1 and 5.
\<close>

lemma clipping_exact:
  assumes "batch_shape N T H x" and "model_of H m" and "clipping m"
    and "0 < T \<or> pooling m \<noteq> None"
  shows "\<exists>raw y. segment_score m x = Inr raw \<and> Model_forward m x = Inr y
           \<and> length (elems raw) = N \<and> length (elems y) = N
           \<and> (\<forall>n<N. \<exists>r. elems raw ! n = Score r \<and> elems y ! n = Score (tanh r * 2 + 3)
                        \<and> 1 < tanh r * 2 + 3 \<and> tanh r * 2 + 3 < 5)"
proof -
  obtain raw where raw: "segment_score m x = Inr raw" "length (elems raw) = N"
    "\<forall>n<N. \<exists>r. elems raw ! n = Score r"
    using segment_score_cases[OF assms(1,2,4)] by blast
  let ?y = "squeeze_last (map_tensor clip raw)"
  have y: "Model_forward m x = Inr ?y"
    using raw(1) assms(3) by (simp add: Model_forward_def)
  have ey: "elems ?y = map clip (elems raw)"
    by (simp add: squeeze_last_def map_tensor_def)
  have "\<exists>r. elems raw ! n = Score r \<and> elems ?y ! n = Score (tanh r * 2 + 3)
                        \<and> 1 < tanh r * 2 + 3 \<and> tanh r * 2 + 3 < 5" if n: "n < N" for n
  proof -
    obtain r where r: "elems raw ! n = Score r" using raw(3) n by blast
    have "elems ?y ! n = clip (Score r)" using n raw(2) r by (simp add: ey)
    then show ?thesis using r clip_range[of r] by auto
  qed
  then show ?thesis using raw(1,2) y ey by (intro exI[of _ raw] exI[of _ ?y]) simp
qed

text \<open>
  For real numbers, reordering the frames of every sequence by a permutation of the
  positions \<open>0 .. T - 1\<close> does not change the mean-pooled scores.
\<close>

lemma mean_pooling_exact_frame_order:
  assumes "batch_shape N T H x" and "model_of H m" and "pooling m = None"
    and "bij_betw \<pi> {..<T} {..<T}"
  shows "Model_forward m (permute_frames \<pi> x) = Model_forward m x"
  using segment_score_mean_permute[OF assms(1,3) model_of_linear[OF assms(2)] assms(4)]
  by (simp add: Model_forward_def)

lemma att_w_permute_frames:
  assumes b: "batch_shape N T H x" and n: "n < N" and t: "t < T"
    and bij: "bij_betw \<pi> {..<T} {..<T}"
  shows "att_w l T H (permute_frames \<pi> x) n t = att_w l T H x n (\<pi> t)"
proof -
  have pi: "\<pi> j < T" if "j < T" for j using bij that by (auto simp: bij_betw_def)
  have lg: "logit l T H (permute_frames \<pi> x) n j = logit l T H x n (\<pi> j)" if "j < T" for j
    using frame_permute_frames[where \<pi>=\<pi>, OF b n that pi[OF that]] by (simp add: logit_def)
  have "(\<Sum>j<T. exp (logit l T H (permute_frames \<pi> x) n j)) = (\<Sum>j<T. exp (logit l T H x n (\<pi> j)))"
    using lg by (intro sum.cong) auto
  also have "\<dots> = (\<Sum>j<T. exp (logit l T H x n j))"
    using bij by (rule sum_reindex_perm)
  finally show ?thesis using lg[OF t] by (simp add: att_w_def)
qed

lemma pooled_frame_permute_frames:
  assumes b: "batch_shape N T H x" and n: "n < N" and bij: "bij_betw \<pi> {..<T} {..<T}"
  shows "pooled_frame l T H (permute_frames \<pi> x) n = pooled_frame l T H x n"
proof -
  have pi: "\<pi> j < T" if "j < T" for j using bij that by (auto simp: bij_betw_def)
  have fr: "frame T H (permute_frames \<pi> x) n j = frame T H x n (\<pi> j)" if "j < T" for j
    using frame_permute_frames[where \<pi>=\<pi>, OF b n that pi[OF that]] .
  have "(\<Sum>j<T. frame T H (permute_frames \<pi> x) n j ! h * att_w l T H (permute_frames \<pi> x) n j)
      = (\<Sum>j<T. frame T H x n j ! h * att_w l T H x n j)" for h
  proof -
    have "(\<Sum>j<T. frame T H (permute_frames \<pi> x) n j ! h * att_w l T H (permute_frames \<pi> x) n j)
        = (\<Sum>j<T. frame T H x n (\<pi> j) ! h * att_w l T H x n (\<pi> j))"
      using fr att_w_permute_frames[OF b n _ bij]
      by (intro sum.cong) auto
    also have "\<dots> = (\<Sum>j<T. frame T H x n j ! h * att_w l T H x n j)"
      using bij by (rule sum_reindex_perm)
    finally show ?thesis .
  qed
  then show ?thesis by (simp add: pooled_frame_def)
qed

lemma Model_forward_attention_permute:
  assumes b: "batch_shape N T H x" and m: "model_of H m" and p: "pooling m = Some p"
    and bij: "bij_betw \<pi> {..<T} {..<T}"
  shows "Model_forward m (permute_frames \<pi> x) = Model_forward m x"
proof -
  note l = model_of_Some[OF m p] and l' = model_of_linear[OF m]
  have "segment_score m (permute_frames \<pi> x) = segment_score m x"
    unfolding segment_score_attention[OF b p l l']
      segment_score_attention[OF permute_frames_shape[OF b] p l l']
    using pooled_frame_permute_frames[OF b _ bij] by simp
  then show ?thesis by (simp add: Model_forward_def)
qed

lemma attention_weight_permute:
  assumes b: "batch_shape N T H x" and l: "length (weight (W p)) = H"
    and bij: "bij_betw \<pi> {..<T} {..<T}"
  shows "attention_weight p (permute_frames \<pi> x) = map_sum id (permute_frames \<pi>) (attention_weight p x)"
proof -
  have pi: "\<pi> j < T" if "j < T" for j using bij that by (auto simp: bij_betw_def)
  let ?a = "\<lambda>k. att_w (W p) T H x (k div T) (k mod T)"
  have el: "att_w (W p) T H (permute_frames \<pi> x) (k div T) (k mod T)
      = map ?a [0..<N * T] ! (((k div (T * 1)) * T + \<pi> ((k div 1) mod T)) * 1 + k mod 1)"
    if k: "k < N * T * 1" for k
  proof -
    have T: "0 < T" using k by (cases T) auto
    have n: "k div T < N" using k by (simp add: less_mult_imp_div_less)
    have t: "k mod T < T" using T by simp
    have i: "k div T * T + \<pi> (k mod T) < N * T" using block_index_less(1)[OF n pi[OF t]] .
    have "map ?a [0..<N * T] ! (k div T * T + \<pi> (k mod T)) = att_w (W p) T H x (k div T) (\<pi> (k mod T))"
      using i pi[OF t] by simp
    then show ?thesis using att_w_permute_frames[OF b n t bij] by simp
  qed
  have "map (\<lambda>k. att_w (W p) T H (permute_frames \<pi> x) (k div T) (k mod T)) [0..<N * T]
      = map (\<lambda>k. map ?a [0..<N * T] ! (((k div (T * 1)) * T + \<pi> ((k div 1) mod T)) * 1 + k mod 1))
          [0..<N * T * 1]"
    using el by (intro map_cong) auto
  then show ?thesis
    unfolding attention_weight_batch[OF b l] attention_weight_batch[OF permute_frames_shape[OF b] l]
    by (simp add: permute_frames_def)
qed

text \<open>
  For real numbers the same holds under attention pooling: the weight of a frame is
  computed from the frames of its sequence and moves with the frame, and the weighted sum
  does not depend on the order of its terms.
\<close>

lemma attention_pooling_exact_frame_order:
  assumes "batch_shape N T H x" and "model_of H m" and "pooling m = Some p"
    and "bij_betw \<pi> {..<T} {..<T}"
  shows "Model_forward m (permute_frames \<pi> x) = Model_forward m x
       \<and> attention_weight p (permute_frames \<pi> x)
           = map_sum id (permute_frames \<pi>) (attention_weight p x)"
  using Model_forward_attention_permute[OF assms]
    attention_weight_permute[OF assms(1) model_of_Some[OF assms(2,3)] assms(4)]
  by simp

subsection \<open>Shapes on which \<open>forward\<close> raises\<close>

lemma Linear_forward_err:
  "shape x = [] \<or> last (shape x) \<noteq> length (weight l) \<Longrightarrow> Linear_forward l x = Inl RuntimeError"
  by (simp add: Linear_forward_def)

lemma Linear_forward_ok:
  assumes "shape x = lead @ [length (weight l)]"
  shows "\<exists>y. Linear_forward l x = Inr y \<and> shape y = lead @ [1]"
  using assms by (simp add: Linear_forward_def Let_def)

lemma attention_weight_shape:
  assumes "shape x = lead @ [length (weight (W p))]"
  shows "\<exists>w. attention_weight p x = Inr w \<and> shape w = lead @ [1]"
proof -
  obtain y where y: "Linear_forward (W p) x = Inr y" "shape y = lead @ [1]"
    using Linear_forward_ok[OF assms] by blast
  have "shape (unsqueeze_last (softmax (squeeze_last y))) = lead @ [1]"
    using y(2) by (simp add: unsqueeze_last_def softmax_def softmax_dim_def squeeze_last_def Let_def)
  then show ?thesis using y(1) by (simp add: attention_weight_def)
qed

lemma map2_same: "map2 (\<lambda>p q. if p = Suc 0 then q else p) xs xs = (xs :: nat list)"
  by (induction xs) auto

lemma list_all_zip_same: "list_all (\<lambda>(p, q). p = q \<or> P p q) (zip xs xs)"
  by (induction xs) auto

lemma broadcast_shapes_last:
  "broadcast_shapes (lead @ [H]) (lead @ [1]) = Inr (lead @ [H])"
  by (simp add: broadcast_shapes_def pad_shape_def map2_same list_all_zip_same)

lemma mul_shape:
  assumes "shape a = lead @ [H]" "shape b = lead @ [1]"
  shows "\<exists>y. mul a b = Inr y \<and> shape y = lead @ [H]"
  unfolding mul_def assms broadcast_shapes_last by simp

lemma sum_dim1_ok:
  assumes "shape y = a # n # rest"
  shows "\<exists>z. sum_dim1 y = Inr z \<and> shape z = a # rest"
  using assms by (simp add: sum_dim1_def)

lemma sum_dim1_err:
  assumes "length (shape y) < 2"
  shows "sum_dim1 y = Inl IndexError"
  using assms by (auto simp: sum_dim1_def split: list.splits)

lemma SelfAttentionPooling_forward_rank:
  assumes "shape x = lead @ [length (weight (W p))]"
  shows "lead = [] \<longrightarrow> SelfAttentionPooling_forward p x = Inl IndexError"
    and "lead \<noteq> [] \<longrightarrow> (\<exists>z. SelfAttentionPooling_forward p x = Inr z
            \<and> shape z = hd lead # tl (tl (lead @ [length (weight (W p))])))"
proof -
  obtain w where w: "attention_weight p x = Inr w" "shape w = lead @ [1]"
    using attention_weight_shape[OF assms] by blast
  obtain y where y: "mul x w = Inr y" "shape y = lead @ [length (weight (W p))]"
    using mul_shape[OF assms w(2)] by blast
  have f: "SelfAttentionPooling_forward p x = sum_dim1 y"
    using w(1) y(1) by (simp add: SelfAttentionPooling_forward_def)
  show "lead = [] \<longrightarrow> SelfAttentionPooling_forward p x = Inl IndexError"
    using y(2) by (auto simp: f intro: sum_dim1_err)
  show "lead \<noteq> [] \<longrightarrow> (\<exists>z. SelfAttentionPooling_forward p x = Inr z
            \<and> shape z = hd lead # tl (tl (lead @ [length (weight (W p))])))"
  proof
    assume "lead \<noteq> []"
    then obtain a rest where lead: "lead = a # rest" by (cases lead) auto
    obtain n rest' where r: "rest @ [length (weight (W p))] = n # rest'"
      by (cases "rest @ [length (weight (W p))]") auto
    have "shape y = a # n # rest'" using y(2) lead r by simp
    from sum_dim1_ok[OF this] show "\<exists>z. SelfAttentionPooling_forward p x = Inr z
            \<and> shape z = hd lead # tl (tl (lead @ [length (weight (W p))]))"
      using lead r by (simp add: f)
  qed
qed

lemma segment_score_raises:
  assumes m: "model_of H m"
  shows "(\<exists>e. segment_score m x = Inl e) \<longleftrightarrow> forward_raises H m (shape x)"
proof (cases "shape x = [] \<or> last (shape x) \<noteq> H")
  case True
  have "segment_score m x = Inl RuntimeError"
  proof (cases "pooling m")
    case None
    then show ?thesis
      using True Linear_forward_err[of x "linear m"] model_of_linear[OF m]
      by (simp add: segment_score_def)
  next
    case (Some p)
    have "Linear_forward (W p) x = Inl RuntimeError"
      using True Linear_forward_err[of x "W p"] model_of_Some[OF m Some] by simp
    then show ?thesis
      using Some by (simp add: segment_score_def SelfAttentionPooling_forward_def attention_weight_def)
  qed
  then show ?thesis using True by (auto simp: forward_raises_def)
next
  case False
  then obtain lead where sx: "shape x = lead @ [H]"
    by (metis append_butlast_last_id)
  show ?thesis
  proof (cases "pooling m")
    case None
    obtain y where "Linear_forward (linear m) x = Inr y"
      using Linear_forward_ok[of x lead "linear m"] sx model_of_linear[OF m] by auto
    then show ?thesis using None False by (simp add: segment_score_def forward_raises_def)
  next
    case (Some p)
    note l = model_of_Some[OF m Some] and l' = model_of_linear[OF m]
    have sx': "shape x = lead @ [length (weight (W p))]" using sx l by simp
    note sap = SelfAttentionPooling_forward_rank[OF sx']
    show ?thesis
    proof (cases lead)
      case Nil
      then have "SelfAttentionPooling_forward p x = Inl IndexError" using sap(1) by simp
      then show ?thesis using Some Nil sx by (simp add: segment_score_def forward_raises_def)
    next
      case (Cons a rest)
      then obtain z where z: "SelfAttentionPooling_forward p x = Inr z"
        "shape z = a # tl (rest @ [H])"
        using sap(2) l by auto
      show ?thesis
      proof (cases rest)
        case Nil
        then have sz: "shape z = [a]" using z(2) by simp
        have "(\<exists>e. Linear_forward (linear m) z = Inl e) \<longleftrightarrow> a \<noteq> H"
          using sz l' by (auto simp: Linear_forward_def)
        then show ?thesis
          using Some z(1) sx Cons Nil False
          by (auto simp: segment_score_def forward_raises_def split: sum.splits)
      next
        case (Cons b rest')
        then have sz: "shape z = (a # rest') @ [length (weight (linear m))]"
          using z(2) l' by simp
        obtain y where "Linear_forward (linear m) z = Inr y"
          using Linear_forward_ok[OF sz] by blast
        then show ?thesis
          using Some z(1) sx \<open>lead = a # rest\<close> Cons False
          by (simp add: segment_score_def forward_raises_def)
      qed
    qed
  qed
qed

lemma Model_forward_raises:
  assumes m: "model_of H m"
  shows "(\<exists>e. Model_forward m x = Inl e) \<longleftrightarrow> forward_raises H m (shape x)"
proof -
  have "(\<exists>e. Model_forward m x = Inl e) \<longleftrightarrow> (\<exists>e. segment_score m x = Inl e)"
    by (auto simp: Model_forward_def split: sum.splits)
  then show ?thesis using segment_score_raises[OF m] by simp
qed

lemma Model_forward_shape_mismatch:
  assumes m: "model_of H m" and s: "shape x = [] \<or> last (shape x) \<noteq> H"
  shows "Model_forward m x = Inl RuntimeError"
proof (cases "pooling m")
  case None
  then show ?thesis
    using s Linear_forward_err[of x "linear m"] model_of_linear[OF m]
    by (simp add: Model_forward_def segment_score_def)
next
  case (Some p)
  have "Linear_forward (W p) x = Inl RuntimeError"
    using s Linear_forward_err[of x "W p"] model_of_Some[OF m Some] by simp
  then show ?thesis
    using Some
    by (simp add: Model_forward_def segment_score_def SelfAttentionPooling_forward_def
        attention_weight_def)
qed

text \<open>
  C9 (as amended). \<open>forward\<close> has no check of its own on the rank or on the sequence
  length. For a model built with \<open>input_dim = H\<close> it raises exactly when the input has no
  dimension or its last dimension is not \<open>H\<close> (RuntimeError, the shape mismatch of a linear
  layer), or, under attention pooling, when the input has one dimension (the sum over
  dimension 1 has no such dimension) or has two dimensions and the first is not \<open>H\<close>.
  Every other input returns a value, whatever its rank and also when \<open>T = 0\<close>.
\<close>

theorem forward_raises_only_where_an_operation_does:
  assumes "model_of H m"
  shows "((\<exists>e. Model_forward m x = Inl e) \<longleftrightarrow>
           (shape x = [] \<or> last (shape x) \<noteq> H
            \<or> (pooling m \<noteq> None
                \<and> (length (shape x) = 1 \<or> (length (shape x) = 2 \<and> hd (shape x) \<noteq> H)))))
       \<and> (shape x = [] \<or> last (shape x) \<noteq> H \<longrightarrow> Model_forward m x = Inl RuntimeError)"
  using Model_forward_raises[OF assms, of x] Model_forward_shape_mismatch[OF assms, of x]
  unfolding forward_raises_def by blast

text \<open>
  C9 as stated fails: under mean pooling a batch of two sequences without frames gives two
  NaN scores, and an input of two dimensions gives one score; neither raises.
\<close>

theorem forward_accepts_empty_sequences_and_rank_two:
  "Model_forward \<lparr>linear = \<lparr>weight = [1], bias = 0\<rparr>, clipping = False, pooling = None\<rparr>
     \<lparr>shape = [2, 0, 1], elems = []\<rparr> = Inr \<lparr>shape = [2], elems = [NaN, NaN]\<rparr>
   \<and> Model_forward \<lparr>linear = \<lparr>weight = [1], bias = 0\<rparr>, clipping = False, pooling = None\<rparr>
     \<lparr>shape = [2, 1], elems = [3, 5]\<rparr> = Inr \<lparr>shape = [], elems = [Score 4]\<rparr>"
  by (simp add: Model_forward_def segment_score_def Linear_forward_def squeeze_last_def
      mean_last_def numel_def row_def dot_def map_tensor_def upt_rec)

text \<open>
  C9 (as amended) at a batch without frames, which returns, and at an input whose last
  dimension is not \<open>input_dim\<close>, which raises.
\<close>

theorem forward_raises_only_where_an_operation_does_witness:
  "model_of 1 \<lparr>linear = \<lparr>weight = [1], bias = 0\<rparr>, clipping = False, pooling = None\<rparr>
   \<and> \<not> (\<exists>e. Model_forward \<lparr>linear = \<lparr>weight = [1], bias = 0\<rparr>, clipping = False, pooling = None\<rparr>
             \<lparr>shape = [2, 0, 1], elems = []\<rparr> = Inl e)
   \<and> Model_forward \<lparr>linear = \<lparr>weight = [1], bias = 0\<rparr>, clipping = False, pooling = None\<rparr>
             \<lparr>shape = [2, 3], elems = [1, 2, 3, 4, 5, 6]\<rparr> = Inl RuntimeError"
proof -
  let ?m = "\<lparr>linear = \<lparr>weight = [1], bias = 0\<rparr>, clipping = False, pooling = None\<rparr>"
  have m: "model_of 1 ?m" by (simp add: batch_eval)
  show ?thesis
    using forward_raises_only_where_an_operation_does[OF m, of "\<lparr>shape = [2, 0, 1], elems = []\<rparr>"]
      forward_raises_only_where_an_operation_does[OF m, of "\<lparr>shape = [2, 3], elems = [1, 2, 3, 4, 5, 6]\<rparr>"]
      m
    by simp
qed

end
